theory Spec2Isabelle
  imports Main
begin

section \<open>The event engine of src/events/Listenable.ts\<close>

text \<open>
  The development embeds \<^verbatim>\<open>Listenable.ts\<close>: the listener registry with its
  \<^verbatim>\<open>listen\<close> and \<^verbatim>\<open>unlisten\<close> methods, \<^verbatim>\<open>fireListeners\<close>, and the
  traversal of \<^verbatim>\<open>dispatchEvent\<close>.

  Objects, callbacks and arrays are compared by identity in the source; here each kind of
  identity is a natural number. The calls to the logger are left out: they write to a side
  channel that no function of the file reads back.
\<close>

subsection \<open>Data\<close>

type_synonym oref = nat
type_synonym cref = nat
type_synonym aref = nat

datatype EventPhase = NONE | CAPTURING_PHASE | AT_TARGET | BUBBLING_PHASE

text \<open>
  \<^verbatim>\<open>LISTENERS_MAP_MISSED\<close> is the error of the source; \<open>CALLBACK_ERROR c\<close> stands for
  whatever value the callback \<open>c\<close> throws.
\<close>

datatype error = LISTENERS_MAP_MISSED | CALLBACK_ERROR cref

text \<open>
  The fields of \<^verbatim>\<open>EventListener\<close>, in the order of the constructor call of
  \<^verbatim>\<open>listen\<close>: \<^verbatim>\<open>new EventListener(callback, capture, passive, false, once)\<close>.
\<close>

record EventListener =
  callback :: cref
  capture :: bool
  "passive" :: bool
  removed :: bool
  once :: bool

text \<open>
  \<^verbatim>\<open>internal.listeners\<close> maps an object to its \<^verbatim>\<open>Map<string, Array<EventListener>>\<close>.
  The arrays are mutated in place (\<^verbatim>\<open>push\<close>, \<^verbatim>\<open>splice\<close>) while \<^verbatim>\<open>fireListeners\<close>
  holds a reference to one of them, so they live in an explicit store: a map holds the
  address of its array, \<open>arrays\<close> gives the contents at an address, and \<open>fresh\<close> is the
  next address that \<^verbatim>\<open>[]\<close> allocates.
\<close>

record internal_state =
  listeners :: "oref \<rightharpoonup> (string \<rightharpoonup> aref)"
  arrays :: "aref \<Rightarrow> EventListener list"
  fresh :: aref

text \<open>
  \<^verbatim>\<open>EventBinder\<close> and \<^verbatim>\<open>Event\<close> are declared in files that are not part of the
  sources at hand; their fields are the ones \<^verbatim>\<open>Listenable.ts\<close> reads and writes
  (\<^verbatim>\<open>phase\<close>, \<^verbatim>\<open>handler\<close>, \<^verbatim>\<open>passive\<close>, \<^verbatim>\<open>stopped\<close>, \<^verbatim>\<open>type\<close>) and the ones
  the test of \<^verbatim>\<open>Event\<close> reads (\<^verbatim>\<open>target\<close>, \<^verbatim>\<open>prevented\<close>). The context.s
  \<^verbatim>\<open>passive\<close> is called \<open>bpassive\<close> to keep it apart from the listener's. The scope,
  the stack and the timestamp of an event are never read by the engine and are left out.
\<close>

record EventBinder =
  phase :: EventPhase
  target :: oref
  handler :: oref
  bpassive :: bool
  stopped :: bool

record Event =
  etype :: string
  prevented :: bool

text \<open>
  One entry of the log of a dispatch: which listener was called, on which object and in
  which phase, the \<^verbatim>\<open>passive\<close> and \<^verbatim>\<open>stopped\<close> flags of the context when the
  call ended, and the error the call threw, if it threw. The log is an observer added to
  the model; no function of the engine reads it.
\<close>

record invocation =
  inv_handler :: oref
  inv_phase :: EventPhase
  inv_callback :: cref
  inv_capture :: bool
  inv_passive :: bool
  inv_once :: bool
  inv_stopped :: bool
  inv_error :: "error option"

text \<open>The state one call of \<^verbatim>\<open>dispatchEvent\<close> works on.\<close>

record dispatch_state =
  internal :: internal_state
  ctx :: EventBinder
  event :: Event
  trace :: "invocation list"

text \<open>
  What a callback does with the event it receives. A callback is a list of calls, run in
  order: \<^verbatim>\<open>event.preventDefault()\<close>, \<^verbatim>\<open>event.stopPropagation()\<close>, a \<^verbatim>\<open>throw\<close>, or
  \<^verbatim>\<open>object.unlisten(type, callback, {capture})\<close> on any object. A callback that calls
  \<^verbatim>\<open>listen\<close> or \<^verbatim>\<open>dispatch\<close> is outside this model: one that registers a new
  callback on the array under iteration at every call keeps the loop of
  \<^verbatim>\<open>fireListeners\<close> running forever.
\<close>

datatype action = PreventDefault | StopPropagation | Throw | Unlisten oref string cref bool

type_synonym behaviour = "cref \<Rightarrow> action list"

type_synonym 'a result = "(error \<times> dispatch_state) + 'a"

subsection \<open>Construction and destruction\<close>

text \<open>\<^verbatim>\<open>internal.listeners.set(this, new Map())\<close> and \<^verbatim>\<open>internal.listeners.delete(this)\<close>.\<close>

definition construct :: "internal_state \<Rightarrow> oref \<Rightarrow> internal_state" where
  "construct w this = w\<lparr>listeners := (listeners w)(this \<mapsto> Map.empty)\<rparr>"

definition destruct :: "internal_state \<Rightarrow> oref \<Rightarrow> internal_state" where
  "destruct w this = w\<lparr>listeners := (listeners w)(this := None)\<rparr>"

subsection \<open>listen\<close>

text \<open>
  The test both search loops apply to an entry:
  \<^verbatim>\<open>!listeners[i].removed && listeners[i].callback === callback &&
  listeners[i].capture === opts.capture\<close>.
\<close>

definition same_key :: "cref \<Rightarrow> bool \<Rightarrow> EventListener \<Rightarrow> bool" where
  "same_key cb cap l \<longleftrightarrow> \<not> removed l \<and> callback l = cb \<and> capture l = cap"

text \<open>
  The options are taken as parsed: \<open>cap\<close>, \<open>pas\<close> and \<open>onc\<close> are \<^verbatim>\<open>opts.capture\<close>,
  \<^verbatim>\<open>opts.passive\<close> and \<^verbatim>\<open>opts.once\<close>, which default to \<^verbatim>\<open>false\<close>.

  The search loop of \<^verbatim>\<open>listen\<close> does not stop at the first match: it updates every
  matching entry and remembers in \<^verbatim>\<open>listener\<close> that there was one (\<open>found\<close>).
\<close>

function listen_loop ::
  "EventListener list \<Rightarrow> cref \<Rightarrow> bool \<Rightarrow> bool \<Rightarrow> bool \<Rightarrow> nat \<Rightarrow> bool \<Rightarrow> EventListener list \<times> bool"
where
  "listen_loop ls cb cap pas onc i found =
     (if i < length ls then
        (if same_key cb cap (ls ! i)
         then listen_loop (ls[i := (ls ! i)\<lparr>passive := pas, once := onc\<rparr>]) cb cap pas onc (Suc i) True
         else listen_loop ls cb cap pas onc (Suc i) found)
      else (ls, found))"
  by pat_completeness auto
termination
  by (relation "measure (\<lambda>(ls, cb, cap, pas, onc, i, found). length ls - i)") auto

declare listen_loop.simps [simp del]

definition listen ::
  "internal_state \<Rightarrow> oref \<Rightarrow> string \<Rightarrow> cref \<Rightarrow> bool \<Rightarrow> bool \<Rightarrow> bool \<Rightarrow> error + internal_state"
where
  "listen w this eventType cb cap pas onc =
     (case listeners w this of
        None \<Rightarrow> Inl LISTENERS_MAP_MISSED
      | Some listenersMap \<Rightarrow>
          (let (w1, a) =
                 (case listenersMap eventType of
                    Some a \<Rightarrow> (w, a)
                  | None \<Rightarrow>
                      (w\<lparr>listeners := (listeners w)(this \<mapsto> listenersMap(eventType \<mapsto> fresh w)),
                         arrays := (arrays w)(fresh w := []),
                         fresh := Suc (fresh w)\<rparr>, fresh w));
               (ls, found) = listen_loop (arrays w1 a) cb cap pas onc 0 False;
               ls' = (if found then ls
                      else ls @ [\<lparr>callback = cb, capture = cap, passive = pas,
                                  removed = False, once = onc\<rparr>])
           in Inr (w1\<lparr>arrays := (arrays w1)(a := ls')\<rparr>)))"

subsection \<open>unlisten\<close>

text \<open>
  The loop of \<^verbatim>\<open>unlisten\<close>: a match is spliced out at index \<open>i\<close>, and the loop goes on
  at \<open>i + 1\<close> of the shortened array. The source sets \<^verbatim>\<open>removed = true\<close> on the entry
  just before the splice; the entry has left the array by then, so the array after the
  splice does not show the flag.
\<close>

function unlisten_loop :: "EventListener list \<Rightarrow> cref \<Rightarrow> bool \<Rightarrow> nat \<Rightarrow> EventListener list" where
  "unlisten_loop ls cb cap i =
     (if i < length ls then
        (if same_key cb cap (ls ! i)
         then unlisten_loop (take i ls @ drop (Suc i) ls) cb cap (Suc i)
         else unlisten_loop ls cb cap (Suc i))
      else ls)"
  by pat_completeness auto
termination
  by (relation "measure (\<lambda>(ls, cb, cap, i). length ls - i)") auto

declare unlisten_loop.simps [simp del]

definition unlisten ::
  "internal_state \<Rightarrow> oref \<Rightarrow> string \<Rightarrow> cref \<Rightarrow> bool \<Rightarrow> error + internal_state"
where
  "unlisten w this eventType cb cap =
     (case listeners w this of
        None \<Rightarrow> Inl LISTENERS_MAP_MISSED
      | Some listenersMap \<Rightarrow>
          (case listenersMap eventType of
             None \<Rightarrow> Inr w
           | Some a \<Rightarrow>
               (let ls = unlisten_loop (arrays w a) cb cap 0;
                    w1 = w\<lparr>arrays := (arrays w)(a := ls)\<rparr>
                in if length ls = 0
                   then Inr (w1\<lparr>listeners := (listeners w1)(this \<mapsto> listenersMap(eventType := None))\<rparr>)
                   else Inr w1)))"

subsection \<open>The event seen by a callback\<close>

text \<open>
  Modelled from the spec: the methods \<^verbatim>\<open>preventDefault\<close> and \<^verbatim>\<open>stopPropagation\<close>
  of \<^verbatim>\<open>Event\<close>, whose file is missing. "\<^verbatim>\<open>preventDefault()\<close>: sets
  \<^verbatim>\<open>prevented = true\<close> unless \<^verbatim>\<open>context.passive\<close> is currently true, in which case it
  is a no-op. \<^verbatim>\<open>stopPropagation()\<close>: sets \<^verbatim>\<open>stopped = true\<close> on the shared context
  unless \<^verbatim>\<open>context.passive\<close> is true; otherwise a no-op."
\<close>

definition preventDefault :: "dispatch_state \<Rightarrow> dispatch_state" where
  "preventDefault s =
     (if bpassive (ctx s) then s else s\<lparr>event := (event s)\<lparr>prevented := True\<rparr>\<rparr>)"

definition stopPropagation :: "dispatch_state \<Rightarrow> dispatch_state" where
  "stopPropagation s =
     (if bpassive (ctx s) then s else s\<lparr>ctx := (ctx s)\<lparr>stopped := True\<rparr>\<rparr>)"

text \<open>The body of the callback \<open>c\<close>, run on the shared state.\<close>

fun run_callback :: "cref \<Rightarrow> action list \<Rightarrow> dispatch_state \<Rightarrow> dispatch_state result" where
  "run_callback c [] s = Inr s"
| "run_callback c (PreventDefault # as) s = run_callback c as (preventDefault s)"
| "run_callback c (StopPropagation # as) s = run_callback c as (stopPropagation s)"
| "run_callback c (Throw # as) s = Inl (CALLBACK_ERROR c, s)"
| "run_callback c (Unlisten ob ty cb cap # as) s =
     (case unlisten (internal s) ob ty cb cap of
        Inl e \<Rightarrow> Inl (e, s)
      | Inr w \<Rightarrow> run_callback c as (s\<lparr>internal := w\<rparr>))"

subsection \<open>fireListeners\<close>

text \<open>\<^verbatim>\<open>EventBinder.passive is set to listener.passive when they differ\<close>.\<close>

definition align :: "EventListener \<Rightarrow> dispatch_state \<Rightarrow> dispatch_state" where
  "align listener s =
     (if bpassive (ctx s) \<noteq> passive listener
      then s\<lparr>ctx := (ctx s)\<lparr>bpassive := passive listener\<rparr>\<rparr>
      else s)"

definition record_call ::
  "EventListener \<Rightarrow> error option \<Rightarrow> dispatch_state \<Rightarrow> dispatch_state"
where
  "record_call listener err s =
     s\<lparr>trace := trace s @
        [\<lparr>inv_handler = handler (ctx s), inv_phase = phase (ctx s),
          inv_callback = callback listener, inv_capture = capture listener,
          inv_passive = bpassive (ctx s), inv_once = once listener,
          inv_stopped = stopped (ctx s), inv_error = err\<rparr>]\<rparr>"

text \<open>
  Aligning the context and \<^verbatim>\<open>listener.callback.call(undefined, event)\<close>. The call is
  logged when it ends, whether it returns or throws.
\<close>

definition call_listener ::
  "behaviour \<Rightarrow> EventListener \<Rightarrow> dispatch_state \<Rightarrow> dispatch_state result"
where
  "call_listener B listener s =
     (case run_callback (callback listener) (B (callback listener)) (align listener s) of
        Inl (e, s') \<Rightarrow> Inl (e, record_call listener (Some e) s')
      | Inr s' \<Rightarrow> Inr (record_call listener None s'))"

text \<open>
  \<^verbatim>\<open>if (listener.once) listenable.unlisten(event.type, listener.callback, {capture})\<close>.
\<close>

definition unlisten_once ::
  "oref \<Rightarrow> EventListener \<Rightarrow> bool \<Rightarrow> dispatch_state \<Rightarrow> dispatch_state result"
where
  "unlisten_once listenable listener cap s =
     (if once listener
      then (case unlisten (internal s) listenable (etype (event s)) (callback listener) cap of
              Inl e \<Rightarrow> Inl (e, s)
            | Inr w \<Rightarrow> Inr (s\<lparr>internal := w\<rparr>))
      else Inr s)"

text \<open>
  What \<^verbatim>\<open>fireListeners\<close> does with a listener that passes its test: the call, then
  the removal of a one-time listener.
\<close>

definition invoke ::
  "behaviour \<Rightarrow> oref \<Rightarrow> bool \<Rightarrow> EventListener \<Rightarrow> dispatch_state \<Rightarrow> dispatch_state result"
where
  "invoke B listenable cap listener s =
     (case call_listener B listener s of
        Inl err \<Rightarrow> Inl err
      | Inr s1 \<Rightarrow> unlisten_once listenable listener cap s1)"

text \<open>
  No call a callback can make, and no removal of a one-time listener, makes an array
  longer: this is what ends the loop of \<^verbatim>\<open>fireListeners\<close>.
\<close>

lemma unlisten_loop_length: "length (unlisten_loop ls cb cap i) \<le> length ls"
proof (induction ls cb cap i rule: unlisten_loop.induct)
  case (1 ls cb cap i)
  show ?case
  proof (cases "i < length ls")
    case False
    then show ?thesis by (subst unlisten_loop.simps) simp
  next
    case True
    show ?thesis
    proof (cases "same_key cb cap (ls ! i)")
      case hit: True
      have "length (unlisten_loop (take i ls @ drop (Suc i) ls) cb cap (Suc i))
              \<le> length (take i ls @ drop (Suc i) ls)"
        using "1.IH"(1) True hit by blast
      also have "\<dots> \<le> length ls" by simp
      finally show ?thesis
        using True hit by (subst unlisten_loop.simps) simp
    next
      case miss: False
      have "length (unlisten_loop ls cb cap (Suc i)) \<le> length ls"
        using "1.IH"(2) True miss by blast
      then show ?thesis
        using True miss by (subst unlisten_loop.simps) auto
    qed
  qed
qed

lemma unlisten_arrays_length:
  "unlisten w this ty cb cap = Inr w' \<Longrightarrow> length (arrays w' a) \<le> length (arrays w a)"
  using unlisten_loop_length [of "arrays w a" cb cap 0]
  by (auto simp: unlisten_def Let_def split: option.splits if_splits)

lemma preventDefault_internal: "internal (preventDefault s) = internal s"
  by (simp add: preventDefault_def)

lemma stopPropagation_internal: "internal (stopPropagation s) = internal s"
  by (simp add: stopPropagation_def)

lemma run_callback_arrays_length:
  "run_callback c as s = Inr s' \<Longrightarrow>
     length (arrays (internal s') a) \<le> length (arrays (internal s) a)"
proof (induction c as s rule: run_callback.induct)
  case (5 c ob ty cb cap as s)
  then obtain w where w: "unlisten (internal s) ob ty cb cap = Inr w"
    and r: "run_callback c as (s\<lparr>internal := w\<rparr>) = Inr s'"
    by (auto split: sum.splits)
  from "5.IH" [OF w r] unlisten_arrays_length [OF w, of a]
  show ?case by simp
qed (simp_all add: preventDefault_internal stopPropagation_internal)

lemma call_listener_arrays_length:
  "call_listener B l s = Inr s' \<Longrightarrow>
     length (arrays (internal s') a) \<le> length (arrays (internal s) a)"
proof -
  assume "call_listener B l s = Inr s'"
  then obtain s1 where r: "run_callback (callback l) (B (callback l)) (align l s) = Inr s1"
    and s': "s' = record_call l None s1"
    by (auto simp: call_listener_def split: sum.splits prod.splits)
  have "internal (align l s) = internal s" by (simp add: align_def)
  with run_callback_arrays_length [OF r, of a] s' show ?thesis
    by (simp add: record_call_def)
qed

lemma unlisten_once_arrays_length:
  "unlisten_once ob l cap s = Inr s' \<Longrightarrow>
     length (arrays (internal s') a) \<le> length (arrays (internal s) a)"
  using unlisten_arrays_length [of "internal s" ob "etype (event s)" "callback l" cap _ a]
  by (auto simp: unlisten_once_def split: if_splits sum.splits)

lemma invoke_arrays_length:
  assumes "invoke B ob cap l s = Inr s'"
  shows "length (arrays (internal s') a) \<le> length (arrays (internal s) a)"
proof -
  from assms obtain s1 where c: "call_listener B l s = Inr s1"
    and u: "unlisten_once ob l cap s1 = Inr s'"
    by (auto simp: invoke_def split: sum.splits)
  from call_listener_arrays_length [OF c, of a] unlisten_once_arrays_length [OF u, of a]
  show ?thesis by simp
qed

text \<open>
  The loop of \<^verbatim>\<open>fireListeners\<close> over the array at address \<open>a\<close>. The array is read
  from the store at every turn, as the source reads \<^verbatim>\<open>listeners.length\<close> and
  \<^verbatim>\<open>listeners[i]\<close> of the array it holds; \<open>listenable\<close> is \<^verbatim>\<open>event.handler\<close> as
  read once before the loop.
\<close>

function fire_loop ::
  "behaviour \<Rightarrow> oref \<Rightarrow> aref \<Rightarrow> bool \<Rightarrow> nat \<Rightarrow> dispatch_state \<Rightarrow> dispatch_state result"
where
  "fire_loop B listenable a cap i s =
     (if i < length (arrays (internal s) a) then
        (let listener = arrays (internal s) a ! i in
         if capture listener = cap \<and> \<not> removed listener \<and> \<not> stopped (ctx s) then
           (case invoke B listenable cap listener s of
              Inl err \<Rightarrow> Inl err
            | Inr s1 \<Rightarrow> fire_loop B listenable a cap (Suc i) s1)
         else fire_loop B listenable a cap (Suc i) s)
      else Inr s)"
  by pat_completeness auto
termination
proof (relation "measure (\<lambda>(B, listenable, a, cap, i, s). length (arrays (internal s) a) - i)")
  show "wf (measure (\<lambda>(B, listenable, a, cap, i, s). length (arrays (internal s) a) - i))"
    by simp
next
  fix B :: behaviour and listenable a :: nat and cap :: bool and i :: nat
    and s s1 :: dispatch_state and listener :: EventListener
  assume i: "i < length (arrays (internal s) a)"
    and c: "invoke B listenable cap listener s = Inr s1"
  have "length (arrays (internal s1) a) \<le> length (arrays (internal s) a)"
    using invoke_arrays_length [OF c] .
  with i show "((B, listenable, a, cap, Suc i, s1), (B, listenable, a, cap, i, s))
      \<in> measure (\<lambda>(B, listenable, a, cap, i, s). length (arrays (internal s) a) - i)"
    by simp
next
  fix B :: behaviour and listenable a :: nat and cap :: bool and i :: nat
    and s :: dispatch_state
  assume "i < length (arrays (internal s) a)"
  then show "((B, listenable, a, cap, Suc i, s), (B, listenable, a, cap, i, s))
      \<in> measure (\<lambda>(B, listenable, a, cap, i, s). length (arrays (internal s) a) - i)"
    by simp
qed

declare fire_loop.simps [simp del]

text \<open>
  \<^verbatim>\<open>_getListenersMaps\<close> throws when the object has no listeners map; an event type
  without an array fires nothing.
\<close>

definition getListenersMaps :: "dispatch_state \<Rightarrow> oref \<Rightarrow> (string \<rightharpoonup> aref) result" where
  "getListenersMaps s node =
     (case listeners (internal s) node of
        None \<Rightarrow> Inl (LISTENERS_MAP_MISSED, s)
      | Some maps \<Rightarrow> Inr maps)"

definition fireListeners :: "behaviour \<Rightarrow> dispatch_state \<Rightarrow> bool \<Rightarrow> dispatch_state result" where
  "fireListeners B s cap =
     (let listenable = handler (ctx s) in
      case getListenersMaps s listenable of
        Inl err \<Rightarrow> Inl err
      | Inr maps \<Rightarrow>
          (case maps (etype (event s)) of
             None \<Rightarrow> Inr s
           | Some a \<Rightarrow> fire_loop B listenable a cap 0 s))"

subsection \<open>dispatchEvent\<close>

text \<open>
  The capturing loop counts \<open>i\<close> down from \<^verbatim>\<open>ancestors.length - 1\<close> while \<open>i \<ge> 0\<close>; it
  has no test of \<^verbatim>\<open>stopped\<close> of its own. The bubbling loop counts up and tests
  \<^verbatim>\<open>stopped\<close> before every ancestor.
\<close>

function capturing_loop ::
  "behaviour \<Rightarrow> oref list \<Rightarrow> int \<Rightarrow> dispatch_state \<Rightarrow> dispatch_state result"
where
  "capturing_loop B ancestors i s =
     (if 0 \<le> i then
        (let s1 = s\<lparr>ctx := (ctx s)\<lparr>phase := CAPTURING_PHASE\<rparr>\<rparr>;
             s2 = s1\<lparr>ctx := (ctx s1)\<lparr>handler := ancestors ! nat i\<rparr>\<rparr>
         in case fireListeners B s2 True of
              Inl err \<Rightarrow> Inl err
            | Inr s3 \<Rightarrow> capturing_loop B ancestors (i - 1) s3)
      else Inr s)"
  by pat_completeness auto
termination
  by (relation "measure (\<lambda>(B, ancestors, i, s). nat (i + 1))") auto

declare capturing_loop.simps [simp del]

function bubbling_loop ::
  "behaviour \<Rightarrow> oref list \<Rightarrow> nat \<Rightarrow> dispatch_state \<Rightarrow> dispatch_state result"
where
  "bubbling_loop B ancestors i s =
     (if \<not> stopped (ctx s) \<and> i < length ancestors then
        (let s1 = s\<lparr>ctx := (ctx s)\<lparr>phase := BUBBLING_PHASE\<rparr>\<rparr>;
             s2 = s1\<lparr>ctx := (ctx s1)\<lparr>handler := ancestors ! i\<rparr>\<rparr>
         in case fireListeners B s2 False of
              Inl err \<Rightarrow> Inl err
            | Inr s3 \<Rightarrow> bubbling_loop B ancestors (Suc i) s3)
      else Inr s)"
  by pat_completeness auto
termination
  by (relation "measure (\<lambda>(B, ancestors, i, s). length ancestors - i)") auto

declare bubbling_loop.simps [simp del]

text \<open>
  Modelled from the spec: the constructors of \<^verbatim>\<open>EventBinder\<close> and \<^verbatim>\<open>Event\<close>, whose
  files are missing. "Construct one \<^verbatim>\<open>DispatchContext{phase=NONE, target=object,
  handler=object, passive=false, stopped=false}\<close> and one \<^verbatim>\<open>EventView{type, scope, ...}\<close>
  bound to it"; a new event is not prevented.
\<close>

definition new_EventBinder :: "EventPhase \<Rightarrow> oref \<Rightarrow> oref \<Rightarrow> EventBinder" where
  "new_EventBinder ph tg hdl =
     \<lparr>phase = ph, target = tg, handler = hdl, bpassive = False, stopped = False\<rparr>"

definition new_Event :: "string \<Rightarrow> Event" where
  "new_Event ty = \<lparr>etype = ty, prevented = False\<rparr>"

text \<open>
  \<^verbatim>\<open>getAncestors\<close> belongs to the tree of objects, which is not part of the sources at
  hand: it is a parameter, a function that gives the ancestors of an object from the
  nearest parent (index 0) to the root.
\<close>

text \<open>
  The state at the start of \<^verbatim>\<open>dispatchEvent(node, type)\<close>: the registry as it is, a
  new context and event, nothing logged.
\<close>

definition start :: "internal_state \<Rightarrow> oref \<Rightarrow> string \<Rightarrow> dispatch_state" where
  "start w node ty =
     \<lparr>internal = w, ctx = new_EventBinder NONE node node, event = new_Event ty, trace = []\<rparr>"

definition dispatchEvent ::
  "behaviour \<Rightarrow> (oref \<Rightarrow> oref list) \<Rightarrow> internal_state \<Rightarrow> oref \<Rightarrow> string
     \<Rightarrow> (bool \<times> dispatch_state) result"
where
  "dispatchEvent B getAncestors w node ty =
     (let s = start w node ty;
          ancestors = getAncestors node
      in case capturing_loop B ancestors (int (length ancestors) - 1) s of
           Inl err \<Rightarrow> Inl err
         | Inr s \<Rightarrow>
        (case (if \<not> stopped (ctx s)
               then fireListeners B (s\<lparr>ctx := (ctx s)\<lparr>phase := AT_TARGET, handler := node\<rparr>\<rparr>) True
               else Inr s) of
           Inl err \<Rightarrow> Inl err
         | Inr s \<Rightarrow>
        (case (if \<not> stopped (ctx s) then fireListeners B s False else Inr s) of
           Inl err \<Rightarrow> Inl err
         | Inr s \<Rightarrow>
        (case (if \<not> stopped (ctx s) then bubbling_loop B ancestors 0 s else Inr s) of
           Inl err \<Rightarrow> Inl err
         | Inr s \<Rightarrow>
             (let s = s\<lparr>ctx := (ctx s)\<lparr>phase := NONE\<rparr>\<rparr>
              in Inr (\<not> stopped (ctx s), s))))))"

text \<open>
  The method \<^verbatim>\<open>dispatch\<close> wraps the call in \<^verbatim>\<open>try { ... } finally { ... }\<close> with
  no \<^verbatim>\<open>catch\<close>: the \<^verbatim>\<open>finally\<close> block stops the logging thread and lets the
  exception pass.
\<close>

definition dispatch ::
  "behaviour \<Rightarrow> (oref \<Rightarrow> oref list) \<Rightarrow> internal_state \<Rightarrow> oref \<Rightarrow> string
     \<Rightarrow> (bool \<times> dispatch_state) result"
where
  "dispatch B getAncestors w this eventType = dispatchEvent B getAncestors w this eventType"

subsection \<open>Sequences of operations\<close>

text \<open>
  The state a result carries, whether the call returned or threw: a thrown error leaves
  the registry as it was at the throw.
\<close>

definition state_after :: "dispatch_state result \<Rightarrow> dispatch_state" where
  "state_after r = (case r of Inl (e, s) \<Rightarrow> s | Inr s \<Rightarrow> s)"

definition state_after_dispatch :: "(bool \<times> dispatch_state) result \<Rightarrow> dispatch_state" where
  "state_after_dispatch r = (case r of Inl (e, s) \<Rightarrow> s | Inr (b, s) \<Rightarrow> s)"

text \<open>
  The registry before any object exists, and the operations a program can run on it. A
  dispatch names the ancestors its object has at that moment.
\<close>

definition initial :: internal_state where
  "initial = \<lparr>listeners = Map.empty, arrays = (\<lambda>a. []), fresh = 0\<rparr>"

datatype operation =
    OpConstruct oref
  | OpDestruct oref
  | OpListen oref string cref bool bool bool
  | OpUnlisten oref string cref bool
  | OpDispatch oref "oref list" string

fun apply_op :: "behaviour \<Rightarrow> internal_state \<Rightarrow> operation \<Rightarrow> internal_state" where
  "apply_op B w (OpConstruct ob) = construct w ob"
| "apply_op B w (OpDestruct ob) = destruct w ob"
| "apply_op B w (OpListen ob ty cb cap pas onc) =
     (case listen w ob ty cb cap pas onc of Inl e \<Rightarrow> w | Inr w' \<Rightarrow> w')"
| "apply_op B w (OpUnlisten ob ty cb cap) =
     (case unlisten w ob ty cb cap of Inl e \<Rightarrow> w | Inr w' \<Rightarrow> w')"
| "apply_op B w (OpDispatch ob ancestors ty) =
     internal (state_after_dispatch (dispatch B (\<lambda>x. ancestors) w ob ty))"

definition run_ops :: "behaviour \<Rightarrow> operation list \<Rightarrow> internal_state" where
  "run_ops B ops = foldl (apply_op B) initial ops"

section \<open>The registry\<close>

subsection \<open>What the search loop of listen computes\<close>

lemma listen_loop_eq:
  "listen_loop ls cb cap pas onc i found =
     (take i ls @ map (\<lambda>l. if same_key cb cap l then l\<lparr>passive := pas, once := onc\<rparr> else l) (drop i ls),
      found \<or> (\<exists>l\<in>set (drop i ls). same_key cb cap l))"
proof (induction ls cb cap pas onc i found rule: listen_loop.induct)
  case (1 ls cb cap pas onc i found)
  let ?u = "\<lambda>l. if same_key cb cap l then l\<lparr>passive := pas, once := onc\<rparr> else l"
  show ?case
  proof (cases "i < length ls")
    case False
    then show ?thesis by (subst listen_loop.simps) simp
  next
    case True
    then have d: "drop i ls = ls ! i # drop (Suc i) ls"
      by (simp add: Cons_nth_drop_Suc)
    show ?thesis
    proof (cases "same_key cb cap (ls ! i)")
      case hit: True
      let ?ls = "ls[i := (ls ! i)\<lparr>passive := pas, once := onc\<rparr>]"
      have ih: "listen_loop ?ls cb cap pas onc (Suc i) True =
          (take (Suc i) ?ls @ map ?u (drop (Suc i) ?ls),
           True \<or> (\<exists>l\<in>set (drop (Suc i) ?ls). same_key cb cap l))"
        using "1.IH"(1) True hit by simp
      have "take (Suc i) ?ls = take i ls @ [?u (ls ! i)]"
        using True hit by (simp add: take_Suc_conv_app_nth)
      moreover have "drop (Suc i) ?ls = drop (Suc i) ls" by simp
      ultimately show ?thesis
        using True hit ih d by (subst listen_loop.simps) simp
    next
      case miss: False
      have ih: "listen_loop ls cb cap pas onc (Suc i) found =
          (take (Suc i) ls @ map ?u (drop (Suc i) ls),
           found \<or> (\<exists>l\<in>set (drop (Suc i) ls). same_key cb cap l))"
        using "1.IH"(2) True miss by simp
      have "take (Suc i) ls = take i ls @ [?u (ls ! i)]"
        using True miss by (simp add: take_Suc_conv_app_nth)
      then show ?thesis
        using True miss ih d by (subst listen_loop.simps) simp
    qed
  qed
qed

text \<open>
  C6. For every registry and every key (event type, callback, capture flag) that has an
  entry, not removed, in the array of the type, another \<^verbatim>\<open>listen\<close> with that key
  succeeds, sets the \<^verbatim>\<open>passive\<close> and \<^verbatim>\<open>once\<close> flags of that entry and appends
  nothing: the map of the object, every other array and the length of this array are
  unchanged, and every entry stays at its position with its callback, capture flag and
  removed flag.
\<close>

theorem relisten_updates_in_place:
  assumes "listeners w this = Some m" and "m ty = Some a"
    and "\<exists>l\<in>set (arrays w a). \<not> removed l \<and> callback l = cb \<and> capture l = cap"
  shows "\<exists>w'. listen w this ty cb cap pas onc = Inr w'
           \<and> listeners w' = listeners w \<and> fresh w' = fresh w
           \<and> (\<forall>a'. a' \<noteq> a \<longrightarrow> arrays w' a' = arrays w a')
           \<and> length (arrays w' a) = length (arrays w a)
           \<and> arrays w' a =
               map (\<lambda>l. if \<not> removed l \<and> callback l = cb \<and> capture l = cap
                        then l\<lparr>passive := pas, once := onc\<rparr> else l) (arrays w a)"
  using assms by (simp add: listen_def listen_loop_eq same_key_def)

theorem relisten_updates_in_place_witness:
  "\<exists>w'. listen (run_ops (\<lambda>c. []) [OpConstruct 0, OpListen 0 ''x'' 10 False False False,
                                   OpListen 0 ''x'' 11 True False False])
               0 ''x'' 10 False True True = Inr w'
        \<and> listeners w' = [0 \<mapsto> [''x'' \<mapsto> 0]] \<and> fresh w' = 1
        \<and> arrays w' 0 =
            [\<lparr>callback = 10, capture = False, passive = True, removed = False, once = True\<rparr>,
             \<lparr>callback = 11, capture = True, passive = False, removed = False, once = False\<rparr>]"
proof -
  let ?w = "\<lparr>listeners = [0 \<mapsto> [''x'' \<mapsto> 0]],
          arrays = (\<lambda>a. [])(0 :=
            [\<lparr>callback = 10, capture = False, passive = False, removed = False, once = False\<rparr>,
             \<lparr>callback = 11, capture = True, passive = False, removed = False, once = False\<rparr>]),
          fresh = 1\<rparr>"
  have w: "run_ops (\<lambda>c. []) [OpConstruct 0, OpListen 0 ''x'' 10 False False False,
                              OpListen 0 ''x'' 11 True False False] = ?w"
    by (simp add: run_ops_def initial_def construct_def listen_def listen_loop_eq same_key_def)
  have "\<exists>l\<in>set (arrays ?w 0). \<not> removed l \<and> callback l = 10 \<and> capture l = False"
    by simp
  from relisten_updates_in_place [of ?w 0 "[''x'' \<mapsto> 0]" "''x''" 0 10 False True True, OF _ _ this]
  show ?thesis
    unfolding w by auto
qed

subsection \<open>What one call leaves alone\<close>

definition frame :: "dispatch_state \<Rightarrow> dispatch_state \<Rightarrow> bool" where
  "frame s s' \<longleftrightarrow>
     phase (ctx s') = phase (ctx s) \<and> handler (ctx s') = handler (ctx s) \<and>
     target (ctx s') = target (ctx s) \<and> etype (event s') = etype (event s) \<and>
     dom (listeners (internal s')) = dom (listeners (internal s)) \<and>
     (stopped (ctx s) \<longrightarrow> stopped (ctx s'))"

lemma frame_refl: "frame s s"
  by (simp add: frame_def)

lemma frame_trans: "frame s s1 \<Longrightarrow> frame s1 s2 \<Longrightarrow> frame s s2"
  by (simp add: frame_def)

lemma unlisten_dom:
  "unlisten w ob ty cb cap = Inr w' \<Longrightarrow> dom (listeners w') = dom (listeners w)"
  by (auto simp: unlisten_def Let_def split: option.splits if_splits)

lemma unlisten_error:
  "unlisten w ob ty cb cap = Inl e \<longleftrightarrow> e = LISTENERS_MAP_MISSED \<and> listeners w ob = None"
  by (auto simp: unlisten_def Let_def split: option.splits if_splits)

lemma run_callback_frame: "frame s (state_after (run_callback c as s))"
proof (induction c as s rule: run_callback.induct)
  case (1 c s)
  show ?case by (simp add: state_after_def frame_def)
next
  case (2 c as s)
  have "frame s (preventDefault s)" by (simp add: frame_def preventDefault_def)
  with 2 show ?case by (auto intro: frame_trans)
next
  case (3 c as s)
  have "frame s (stopPropagation s)" by (simp add: frame_def stopPropagation_def)
  with 3 show ?case by (auto intro: frame_trans)
next
  case (4 c as s)
  show ?case by (simp add: state_after_def frame_def)
next
  case (5 c ob ty cb cap as s)
  show ?case
  proof (cases "unlisten (internal s) ob ty cb cap")
    case (Inl e)
    then show ?thesis by (simp add: state_after_def frame_def)
  next
    case (Inr w)
    have "frame s (s\<lparr>internal := w\<rparr>)"
      using unlisten_dom [OF Inr] by (simp add: frame_def)
    with 5 Inr show ?thesis by (auto intro: frame_trans)
  qed
qed

lemma call_listener_frame: "frame s (state_after (call_listener B l s))"
proof -
  let ?r = "run_callback (callback l) (B (callback l)) (align l s)"
  have a: "frame s (align l s)" by (simp add: frame_def align_def)
  have b: "frame (align l s) (state_after ?r)" by (rule run_callback_frame)
  have c: "frame (state_after ?r) (state_after (call_listener B l s))"
    by (cases ?r) (auto simp: call_listener_def state_after_def frame_def record_call_def)
  from a b c show ?thesis by (blast intro: frame_trans)
qed

lemma unlisten_once_frame: "frame s (state_after (unlisten_once ob l cap s))"
proof (cases "unlisten (internal s) ob (etype (event s)) (callback l) cap")
  case (Inl e)
  then show ?thesis by (simp add: unlisten_once_def state_after_def frame_def)
next
  case (Inr w)
  from unlisten_dom [OF Inr] Inr show ?thesis
    by (simp add: unlisten_once_def state_after_def frame_def)
qed

lemma invoke_frame: "frame s (state_after (invoke B ob cap l s))"
proof (cases "call_listener B l s")
  case (Inl err)
  with call_listener_frame [of s B l] show ?thesis by (simp add: invoke_def)
next
  case (Inr s1)
  with call_listener_frame [of s B l] have "frame s s1" by (simp add: state_after_def)
  moreover have "frame s1 (state_after (unlisten_once ob l cap s1))"
    by (rule unlisten_once_frame)
  ultimately show ?thesis using Inr by (auto simp: invoke_def intro: frame_trans)
qed

subsection \<open>A rule for relations between a state and the result of running from it\<close>

lemma fire_loop_rule:
  assumes ret: "\<And>s. R s (Inr s)"
    and seq: "\<And>s s1 r. R s (Inr s1) \<Longrightarrow> R s1 r \<Longrightarrow> R s r"
    and step: "\<And>l s. capture l = cap \<Longrightarrow> \<not> removed l \<Longrightarrow> \<not> stopped (ctx s) \<Longrightarrow>
                 handler (ctx s) = ob \<Longrightarrow> listeners (internal s) ob \<noteq> None \<Longrightarrow>
                 R s (invoke B ob cap l s)"
    and "handler (ctx s) = ob" and "listeners (internal s) ob \<noteq> None"
  shows "R s (fire_loop B ob a cap i s)"
  using assms(3-)
proof (induction B ob a cap i s rule: fire_loop.induct)
  case (1 B ob a cap i s)
  let ?l = "arrays (internal s) a ! i"
  show ?case
  proof (cases "i < length (arrays (internal s) a)")
    case False
    then show ?thesis by (subst fire_loop.simps) (simp add: ret)
  next
    case True
    show ?thesis
    proof (cases "capture ?l = cap \<and> \<not> removed ?l \<and> \<not> stopped (ctx s)")
      case False
      then have eq: "fire_loop B ob a cap i s = fire_loop B ob a cap (Suc i) s"
        using True by (subst fire_loop.simps) (auto simp: Let_def)
      from "1.IH"(2) [OF True refl False "1.prems"]
      show ?thesis unfolding eq .
    next
      case fire: True
      with "1.prems"(2,3) have st: "R s (invoke B ob cap ?l s)"
        by (intro "1.prems"(1)) auto
      show ?thesis
      proof (cases "invoke B ob cap ?l s")
        case (Inl err)
        have "fire_loop B ob a cap i s = Inl err"
          using True fire Inl by (subst fire_loop.simps) (simp add: Let_def)
        with st Inl show ?thesis by simp
      next
        case (Inr s1)
        from invoke_frame [of s B ob cap ?l] Inr have f: "frame s s1"
          by (simp add: state_after_def)
        with "1.prems"(2,3) have h: "handler (ctx s1) = ob" "listeners (internal s1) ob \<noteq> None"
          by (auto simp: frame_def)
        have eq: "fire_loop B ob a cap i s = fire_loop B ob a cap (Suc i) s1"
          using True fire Inr by (subst fire_loop.simps) (simp add: Let_def)
        have "R s1 (fire_loop B ob a cap (Suc i) s1)"
          using "1.IH"(1) [OF True refl fire Inr "1.prems"(1)] h by blast
        moreover from st Inr have "R s (Inr s1)" by simp
        ultimately show ?thesis unfolding eq by (rule seq [rotated])
      qed
    qed
  qed
qed

lemma fireListeners_rule:
  assumes ret: "\<And>s. R s (Inr s)"
    and seq: "\<And>s s1 r. R s (Inr s1) \<Longrightarrow> R s1 r \<Longrightarrow> R s r"
    and miss: "\<And>s. listeners (internal s) (handler (ctx s)) = None \<Longrightarrow>
                 R s (Inl (LISTENERS_MAP_MISSED, s))"
    and step: "\<And>l s. capture l = cap \<Longrightarrow> \<not> removed l \<Longrightarrow> \<not> stopped (ctx s) \<Longrightarrow>
                 listeners (internal s) (handler (ctx s)) \<noteq> None \<Longrightarrow>
                 R s (invoke B (handler (ctx s)) cap l s)"
  shows "R s (fireListeners B s cap)"
proof (cases "listeners (internal s) (handler (ctx s))")
  case None
  then have "fireListeners B s cap = Inl (LISTENERS_MAP_MISSED, s)"
    by (simp add: fireListeners_def getListenersMaps_def)
  with miss [OF None] show ?thesis by simp
next
  case (Some maps)
  show ?thesis
  proof (cases "maps (etype (event s))")
    case None
    with Some have "fireListeners B s cap = Inr s"
      by (simp add: fireListeners_def getListenersMaps_def)
    with ret show ?thesis by simp
  next
    case (Some a)
    with \<open>listeners (internal s) (handler (ctx s)) = Some maps\<close>
    have eq: "fireListeners B s cap = fire_loop B (handler (ctx s)) a cap 0 s"
      by (simp add: fireListeners_def getListenersMaps_def)
    have "R s (fire_loop B (handler (ctx s)) a cap 0 s)"
    proof (rule fire_loop_rule [where R = R, OF ret seq])
      fix l :: EventListener and s' :: dispatch_state
      assume "capture l = cap" "\<not> removed l" "\<not> stopped (ctx s')"
        "handler (ctx s') = handler (ctx s)"
        "listeners (internal s') (handler (ctx s)) \<noteq> None"
      then show "R s' (invoke B (handler (ctx s)) cap l s')"
        using step [of l s'] by simp
    next
      show "handler (ctx s) = handler (ctx s)" by simp
    next
      show "listeners (internal s) (handler (ctx s)) \<noteq> None"
        using \<open>listeners (internal s) (handler (ctx s)) = Some maps\<close> by simp
    qed
    then show ?thesis by (simp add: eq)
  qed
qed

lemma fireListeners_frame: "frame s (state_after (fireListeners B s cap))"
  by (rule fireListeners_rule [where R = "\<lambda>s r. frame s (state_after r)"])
     (auto simp: state_after_def frame_refl invoke_frame [unfolded state_after_def]
           intro: frame_trans split: sum.splits)

definition visit :: "EventPhase \<Rightarrow> oref \<Rightarrow> dispatch_state \<Rightarrow> dispatch_state" where
  "visit p h s = s\<lparr>ctx := (ctx s)\<lparr>phase := p, handler := h\<rparr>\<rparr>"

lemma capturing_loop_unfold:
  "capturing_loop B ancestors i s =
     (if 0 \<le> i then
        (case fireListeners B (visit CAPTURING_PHASE (ancestors ! nat i) s) True of
           Inl err \<Rightarrow> Inl err
         | Inr s3 \<Rightarrow> capturing_loop B ancestors (i - 1) s3)
      else Inr s)"
  by (subst capturing_loop.simps) (simp add: visit_def Let_def)

lemma bubbling_loop_unfold:
  "bubbling_loop B ancestors i s =
     (if \<not> stopped (ctx s) \<and> i < length ancestors then
        (case fireListeners B (visit BUBBLING_PHASE (ancestors ! i) s) False of
           Inl err \<Rightarrow> Inl err
         | Inr s3 \<Rightarrow> bubbling_loop B ancestors (Suc i) s3)
      else Inr s)"
  by (subst bubbling_loop.simps) (simp add: visit_def Let_def)

lemma capturing_loop_rule:
  assumes ret: "\<And>s. R s (Inr s)"
    and seq: "\<And>s s1 r. R s (Inr s1) \<Longrightarrow> R s1 r \<Longrightarrow> R s r"
    and fire: "\<And>s. phase (ctx s) = CAPTURING_PHASE \<Longrightarrow> handler (ctx s) \<in> set ancestors \<Longrightarrow>
                 R s (fireListeners B s True)"
    and upd: "\<And>s h. h \<in> set ancestors \<Longrightarrow> R s (Inr (visit CAPTURING_PHASE h s))"
    and "i < int (length ancestors)"
  shows "R s (capturing_loop B ancestors i s)"
  using assms(3-)
proof (induction B ancestors i s rule: capturing_loop.induct)
  case (1 B ancestors i s)
  show ?case
  proof (cases "0 \<le> i")
    case False
    then show ?thesis by (subst capturing_loop_unfold) (simp add: ret)
  next
    case True
    let ?s = "visit CAPTURING_PHASE (ancestors ! nat i) s"
    from True "1.prems"(3) have m: "ancestors ! nat i \<in> set ancestors" by simp
    then have u: "R s (Inr ?s)" by (rule "1.prems"(2))
    have f: "R ?s (fireListeners B ?s True)"
      using m by (intro "1.prems"(1)) (simp_all add: visit_def)
    show ?thesis
    proof (cases "fireListeners B ?s True")
      case (Inl err)
      then have "capturing_loop B ancestors i s = Inl err"
        using True by (subst capturing_loop_unfold) simp
      with seq [OF u f] Inl show ?thesis by simp
    next
      case (Inr s3)
      then have eq: "capturing_loop B ancestors i s = capturing_loop B ancestors (i - 1) s3"
        using True by (subst capturing_loop_unfold) simp
      have "R s3 (capturing_loop B ancestors (i - 1) s3)"
        using "1.IH" [OF True _ _ _ "1.prems"(1,2)] Inr "1.prems"(3)
        by (simp add: visit_def)
      moreover from seq [OF u f] Inr have "R s (Inr s3)" by simp
      ultimately show ?thesis unfolding eq by (rule seq [rotated])
    qed
  qed
qed

lemma bubbling_loop_rule:
  assumes ret: "\<And>s. R s (Inr s)"
    and seq: "\<And>s s1 r. R s (Inr s1) \<Longrightarrow> R s1 r \<Longrightarrow> R s r"
    and fire: "\<And>s. phase (ctx s) = BUBBLING_PHASE \<Longrightarrow> handler (ctx s) \<in> set ancestors \<Longrightarrow>
                 \<not> stopped (ctx s) \<Longrightarrow> R s (fireListeners B s False)"
    and upd: "\<And>s h. h \<in> set ancestors \<Longrightarrow> R s (Inr (visit BUBBLING_PHASE h s))"
  shows "R s (bubbling_loop B ancestors i s)"
  using assms(3-)
proof (induction B ancestors i s rule: bubbling_loop.induct)
  case (1 B ancestors i s)
  show ?case
  proof (cases "\<not> stopped (ctx s) \<and> i < length ancestors")
    case False
    then have "bubbling_loop B ancestors i s = Inr s"
      by (subst bubbling_loop_unfold) auto
    then show ?thesis by (simp add: ret)
  next
    case True
    let ?s = "visit BUBBLING_PHASE (ancestors ! i) s"
    from True have m: "ancestors ! i \<in> set ancestors" by simp
    then have u: "R s (Inr ?s)" by (rule "1.prems"(2))
    have f: "R ?s (fireListeners B ?s False)"
      using m True by (intro "1.prems"(1)) (simp_all add: visit_def)
    show ?thesis
    proof (cases "fireListeners B ?s False")
      case (Inl err)
      then have "bubbling_loop B ancestors i s = Inl err"
        using True by (subst bubbling_loop_unfold) simp
      with seq [OF u f] Inl show ?thesis by simp
    next
      case (Inr s3)
      then have eq: "bubbling_loop B ancestors i s = bubbling_loop B ancestors (Suc i) s3"
        using True by (subst bubbling_loop_unfold) simp
      have "R s3 (bubbling_loop B ancestors (Suc i) s3)"
        using "1.IH" [OF True _ _ _ "1.prems"(1,2)] Inr
        by (simp add: visit_def)
      moreover from seq [OF u f] Inr have "R s (Inr s3)" by simp
      ultimately show ?thesis unfolding eq by (rule seq [rotated])
    qed
  qed
qed


subsection \<open>The stages of dispatchEvent\<close>

definition then_do :: "dispatch_state result \<Rightarrow> (dispatch_state \<Rightarrow> 'a result) \<Rightarrow> 'a result" where
  "then_do r f = (case r of Inl err \<Rightarrow> Inl err | Inr s \<Rightarrow> f s)"

definition capturing :: "behaviour \<Rightarrow> oref list \<Rightarrow> dispatch_state \<Rightarrow> dispatch_state result" where
  "capturing B ancestors s = capturing_loop B ancestors (int (length ancestors) - 1) s"

definition at_target_capture :: "behaviour \<Rightarrow> oref \<Rightarrow> dispatch_state \<Rightarrow> dispatch_state result" where
  "at_target_capture B node s =
     (if \<not> stopped (ctx s) then fireListeners B (visit AT_TARGET node s) True else Inr s)"

definition at_target_bubble :: "behaviour \<Rightarrow> dispatch_state \<Rightarrow> dispatch_state result" where
  "at_target_bubble B s = (if \<not> stopped (ctx s) then fireListeners B s False else Inr s)"

definition bubbling :: "behaviour \<Rightarrow> oref list \<Rightarrow> dispatch_state \<Rightarrow> dispatch_state result" where
  "bubbling B ancestors s = (if \<not> stopped (ctx s) then bubbling_loop B ancestors 0 s else Inr s)"

definition unset_phase :: "dispatch_state \<Rightarrow> dispatch_state" where
  "unset_phase s = s\<lparr>ctx := (ctx s)\<lparr>phase := NONE\<rparr>\<rparr>"

definition traversal ::
  "behaviour \<Rightarrow> oref list \<Rightarrow> oref \<Rightarrow> dispatch_state \<Rightarrow> dispatch_state result"
where
  "traversal B ancestors node s =
     then_do (then_do (then_do (then_do (capturing B ancestors s)
       (at_target_capture B node)) (at_target_bubble B)) (bubbling B ancestors))
       (\<lambda>s. Inr (unset_phase s))"

lemma dispatchEvent_traversal:
  "dispatchEvent B G w node ty =
     (case traversal B (G node) node (start w node ty) of
        Inl err \<Rightarrow> Inl err
      | Inr s \<Rightarrow> Inr (\<not> stopped (ctx s), s))"
  by (simp add: dispatchEvent_def traversal_def then_do_def capturing_def
        at_target_capture_def at_target_bubble_def bubbling_def unset_phase_def visit_def
        Let_def split: sum.splits)

lemma state_after_dispatchEvent:
  "state_after_dispatch (dispatchEvent B G w node ty) =
     state_after (traversal B (G node) node (start w node ty))"
  by (simp add: dispatchEvent_traversal state_after_dispatch_def state_after_def
        split: sum.splits)

lemma then_do_rule:
  assumes seq: "\<And>s s1 r. R s (Inr s1) \<Longrightarrow> R s1 r \<Longrightarrow> R s r"
    and "R s r" and "\<And>s1. r = Inr s1 \<Longrightarrow> R s1 (f s1)"
  shows "R s (then_do r f)"
proof (cases r)
  case (Inl err)
  with assms(2) show ?thesis by (simp add: then_do_def)
next
  case (Inr s1)
  with assms(2) have "R s (Inr s1)" by simp
  moreover have "R s1 (f s1)" using assms(3) Inr by simp
  ultimately have "R s (f s1)" by (rule seq)
  with Inr show ?thesis by (simp add: then_do_def)
qed

definition visiting :: "oref list \<Rightarrow> oref \<Rightarrow> dispatch_state \<Rightarrow> bool \<Rightarrow> bool" where
  "visiting ancestors node s cap \<longleftrightarrow>
     phase (ctx s) = CAPTURING_PHASE \<and> handler (ctx s) \<in> set ancestors \<and> cap \<or>
     phase (ctx s) = AT_TARGET \<and> handler (ctx s) = node \<and> \<not> stopped (ctx s) \<or>
     phase (ctx s) = BUBBLING_PHASE \<and> handler (ctx s) \<in> set ancestors \<and> \<not> cap
       \<and> \<not> stopped (ctx s)"

lemma traversal_rule:
  assumes ret: "\<And>s. R s (Inr s)"
    and seq: "\<And>s s1 r. R s (Inr s1) \<Longrightarrow> R s1 r \<Longrightarrow> R s r"
    and fire: "\<And>s cap. visiting ancestors node s cap \<Longrightarrow> R s (fireListeners B s cap)"
    and upd: "\<And>s p h. p \<noteq> NONE \<Longrightarrow> h \<in> set (node # ancestors) \<Longrightarrow> R s (Inr (visit p h s))"
    and fin: "\<And>s. R s (Inr (unset_phase s))"
  shows "R s (traversal B ancestors node s)"
proof -
  have c: "R s (capturing B ancestors s)"
    unfolding capturing_def
  proof (rule capturing_loop_rule [where R = R, OF ret seq])
    show "R s (fireListeners B s True)"
      if "phase (ctx s) = CAPTURING_PHASE" "handler (ctx s) \<in> set ancestors" for s
      using that by (intro fire) (simp add: visiting_def)
    show "R s (Inr (visit CAPTURING_PHASE h s))" if "h \<in> set ancestors" for s h
      using that by (intro upd) simp_all
    show "int (length ancestors) - 1 < int (length ancestors)" by simp
  qed
  have tc: "R s (at_target_capture B node s)" for s
  proof (cases "stopped (ctx s)")
    case True
    then show ?thesis by (simp add: at_target_capture_def ret)
  next
    case False
    let ?s = "visit AT_TARGET node s"
    have "R s (Inr ?s)" by (intro upd) simp_all
    moreover have "R ?s (fireListeners B ?s True)"
      using False by (intro fire) (simp add: visiting_def visit_def)
    ultimately show ?thesis using False by (auto simp: at_target_capture_def intro: seq)
  qed
  have tb: "R s2 (at_target_bubble B s2)" if "at_target_capture B node s1 = Inr s2" for s1 s2
  proof (cases "stopped (ctx s2)")
    case True
    then show ?thesis by (simp add: at_target_bubble_def ret)
  next
    case False
    have ns: "\<not> stopped (ctx s1)"
      using that False by (auto simp: at_target_capture_def split: if_splits)
    with that have f: "fireListeners B (visit AT_TARGET node s1) True = Inr s2"
      by (simp add: at_target_capture_def)
    from fireListeners_frame [of "visit AT_TARGET node s1" B True] f
    have "phase (ctx s2) = AT_TARGET" "handler (ctx s2) = node"
      by (simp_all add: frame_def state_after_def visit_def)
    with False have "visiting ancestors node s2 False" by (simp add: visiting_def)
    then have "R s2 (fireListeners B s2 False)" by (rule fire)
    with False show ?thesis by (simp add: at_target_bubble_def)
  qed
  have b: "R s (bubbling B ancestors s)" for s
  proof (cases "stopped (ctx s)")
    case True
    then show ?thesis by (simp add: bubbling_def ret)
  next
    case False
    have "R s (bubbling_loop B ancestors 0 s)"
    proof (rule bubbling_loop_rule [where R = R, OF ret seq])
      show "R s (fireListeners B s False)"
        if "phase (ctx s) = BUBBLING_PHASE" "handler (ctx s) \<in> set ancestors"
          "\<not> stopped (ctx s)" for s
        using that by (intro fire) (simp add: visiting_def)
      show "R s (Inr (visit BUBBLING_PHASE h s))" if "h \<in> set ancestors" for s h
        using that by (intro upd) simp_all
    qed
    with False show ?thesis by (simp add: bubbling_def)
  qed
  let ?x2 = "then_do (capturing B ancestors s) (at_target_capture B node)"
  let ?x3 = "then_do ?x2 (at_target_bubble B)"
  let ?x4 = "then_do ?x3 (bubbling B ancestors)"
  have td: "R s (then_do r f)"
    if "R s r" and "\<And>s1. r = Inr s1 \<Longrightarrow> R s1 (f s1)" for s r f
  proof (rule then_do_rule [where R = R])
    show "R s r" if "R s (Inr s1)" and "R s1 r" for s s1 r
      using that by (rule seq)
  qed (use that in auto)
  have x2: "R s ?x2"
    by (rule td [OF c]) (rule tc)
  have x3: "R s ?x3"
  proof (rule td [OF x2])
    fix s2 assume "?x2 = Inr s2"
    then obtain s1 where "at_target_capture B node s1 = Inr s2"
      by (auto simp: then_do_def split: sum.splits)
    then show "R s2 (at_target_bubble B s2)" by (rule tb)
  qed
  have x4: "R s ?x4"
    by (rule td [OF x3]) (rule b)
  show ?thesis
    unfolding traversal_def by (rule td [OF x4]) (rule fin)
qed

subsection \<open>What the search loop of unlisten computes\<close>

lemma unlisten_loop_no_match:
  "\<forall>l\<in>set (drop i ls). \<not> same_key cb cap l \<Longrightarrow> unlisten_loop ls cb cap i = ls"
proof (induction ls cb cap i rule: unlisten_loop.induct)
  case (1 ls cb cap i)
  show ?case
  proof (cases "i < length ls")
    case False
    then show ?thesis by (subst unlisten_loop.simps) simp
  next
    case True
    then have d: "drop i ls = ls ! i # drop (Suc i) ls"
      by (simp add: Cons_nth_drop_Suc)
    with "1.prems" have miss: "\<not> same_key cb cap (ls ! i)"
      and rest: "\<forall>l\<in>set (drop (Suc i) ls). \<not> same_key cb cap l"
      by simp_all
    from "1.IH"(2) [OF True miss rest] True miss show ?thesis
      by (subst unlisten_loop.simps) simp
  qed
qed

lemma unlisten_loop_filter:
  assumes "length (filter (same_key cb cap) (drop i ls)) \<le> 1"
  shows "unlisten_loop ls cb cap i =
           take i ls @ filter (\<lambda>l. \<not> same_key cb cap l) (drop i ls)"
  using assms
proof (induction ls cb cap i rule: unlisten_loop.induct)
  case (1 ls cb cap i)
  show ?case
  proof (cases "i < length ls")
    case False
    then show ?thesis by (subst unlisten_loop.simps) simp
  next
    case True
    then have d: "drop i ls = ls ! i # drop (Suc i) ls"
      by (simp add: Cons_nth_drop_Suc)
    show ?thesis
    proof (cases "same_key cb cap (ls ! i)")
      case hit: True
      with "1.prems" d have "filter (same_key cb cap) (drop (Suc i) ls) = []"
        by simp
      then have none: "\<forall>l\<in>set (drop (Suc i) ls). \<not> same_key cb cap l"
        by (simp add: filter_empty_conv)
      let ?ls = "take i ls @ drop (Suc i) ls"
      have "drop (Suc i) ?ls = drop (Suc (Suc i)) ls"
        using True by (simp add: min_def)
      moreover have "set (drop (Suc (Suc i)) ls) \<subseteq> set (drop (Suc i) ls)"
        by (metis drop_Suc set_drop_subset tl_drop drop_drop plus_1_eq_Suc)
      ultimately have "\<forall>l\<in>set (drop (Suc i) ?ls). \<not> same_key cb cap l"
        using none by auto
      then have "unlisten_loop ?ls cb cap (Suc i) = ?ls"
        by (rule unlisten_loop_no_match)
      moreover have "filter (\<lambda>l. \<not> same_key cb cap l) (drop i ls) = drop (Suc i) ls"
        using d hit none by simp
      ultimately show ?thesis
        using True hit by (subst unlisten_loop.simps) simp
    next
      case miss: False
      with "1.prems" d have "length (filter (same_key cb cap) (drop (Suc i) ls)) \<le> 1"
        by simp
      from "1.IH"(2) [OF True miss this] True miss d show ?thesis
        by (subst unlisten_loop.simps) (simp add: take_Suc_conv_app_nth)
    qed
  qed
qed

lemma unlisten_loop_subset: "set (unlisten_loop ls cb cap i) \<subseteq> set ls"
proof (induction ls cb cap i rule: unlisten_loop.induct)
  case (1 ls cb cap i)
  show ?case
  proof (cases "i < length ls")
    case False
    then show ?thesis by (subst unlisten_loop.simps) simp
  next
    case True
    show ?thesis
    proof (cases "same_key cb cap (ls ! i)")
      case hit: True
      have "set (take i ls @ drop (Suc i) ls) \<subseteq> set ls"
        by (auto dest: in_set_takeD in_set_dropD)
      with "1.IH"(1) [OF True hit] True hit show ?thesis
        by (subst unlisten_loop.simps) auto
    next
      case miss: False
      with "1.IH"(2) [OF True miss] True show ?thesis
        by (subst unlisten_loop.simps) auto
    qed
  qed
qed

subsection \<open>Well-formed registries\<close>

definition bucket :: "internal_state \<Rightarrow> oref \<Rightarrow> string \<Rightarrow> aref option" where
  "bucket w h ty = (case listeners w h of None \<Rightarrow> None | Some m \<Rightarrow> m ty)"

definition key_of :: "EventListener \<Rightarrow> cref \<times> bool" where
  "key_of l = (callback l, capture l)"

definition well_formed :: "internal_state \<Rightarrow> bool" where
  "well_formed w \<longleftrightarrow>
     (\<forall>h ty a. bucket w h ty = Some a \<longrightarrow>
        a < fresh w \<and> arrays w a \<noteq> [] \<and> (\<forall>l\<in>set (arrays w a). \<not> removed l) \<and>
        distinct (map key_of (arrays w a))) \<and>
     (\<forall>h ty h' ty' a. bucket w h ty = Some a \<longrightarrow> bucket w h' ty' = Some a \<longrightarrow>
        h = h' \<and> ty = ty')"

definition upsert :: "cref \<Rightarrow> bool \<Rightarrow> bool \<Rightarrow> bool \<Rightarrow> EventListener list \<Rightarrow> EventListener list" where
  "upsert cb cap pas onc ls =
     (if \<exists>l\<in>set ls. same_key cb cap l
      then map (\<lambda>l. if same_key cb cap l then l\<lparr>passive := pas, once := onc\<rparr> else l) ls
      else ls @ [\<lparr>callback = cb, capture = cap, passive = pas, removed = False, once = onc\<rparr>])"

lemma listen_existing:
  assumes "listeners w this = Some m" and "m ty = Some a"
  shows "listen w this ty cb cap pas onc =
           Inr (w\<lparr>arrays := (arrays w)(a := upsert cb cap pas onc (arrays w a))\<rparr>)"
proof -
  let ?u = "\<lambda>l. if same_key cb cap l then l\<lparr>passive := pas, once := onc\<rparr> else l"
  have "map ?u (arrays w a) = arrays w a" if "\<forall>l\<in>set (arrays w a). \<not> same_key cb cap l"
    using that by (intro map_idI) simp
  then show ?thesis
    using assms by (auto simp: listen_def listen_loop_eq upsert_def)
qed

lemma listen_new:
  assumes "listeners w this = Some m" and "m ty = None"
  shows "listen w this ty cb cap pas onc =
           Inr (w\<lparr>listeners := (listeners w)(this \<mapsto> m(ty \<mapsto> fresh w)),
                  arrays := (arrays w)(fresh w :=
                    [\<lparr>callback = cb, capture = cap, passive = pas, removed = False, once = onc\<rparr>]),
                  fresh := Suc (fresh w)\<rparr>)"
  using assms by (simp add: listen_def listen_loop_eq)

lemma listen_error:
  "listen w this ty cb cap pas onc = Inl e \<longleftrightarrow> e = LISTENERS_MAP_MISSED \<and> listeners w this = None"
  by (cases "listeners w this")
     (auto simp: listen_def Let_def split: option.splits prod.splits)

lemma upsert_well:
  assumes "\<forall>l\<in>set ls. \<not> removed l" and "distinct (map key_of ls)"
  shows "upsert cb cap pas onc ls \<noteq> []"
    and "\<forall>l\<in>set (upsert cb cap pas onc ls). \<not> removed l"
    and "distinct (map key_of (upsert cb cap pas onc ls))"
proof -
  let ?u = "\<lambda>l. if same_key cb cap l then l\<lparr>passive := pas, once := onc\<rparr> else l"
  have k: "key_of \<circ> ?u = key_of"
    by (auto simp: key_of_def fun_eq_iff)
  show "upsert cb cap pas onc ls \<noteq> []"
    by (auto simp: upsert_def)
  show "\<forall>l\<in>set (upsert cb cap pas onc ls). \<not> removed l"
    using assms(1) by (auto simp: upsert_def)
  show "distinct (map key_of (upsert cb cap pas onc ls))"
  proof (cases "\<exists>l\<in>set ls. same_key cb cap l")
    case True
    then have "upsert cb cap pas onc ls = map ?u ls" by (simp add: upsert_def)
    with k assms(2) show ?thesis by simp
  next
    case False
    with assms(1) have "(cb, cap) \<notin> key_of ` set ls"
      by (auto simp: same_key_def key_of_def)
    with False assms(2) show ?thesis by (simp add: upsert_def key_of_def)
  qed
qed

lemma well_formed_initial: "well_formed initial"
  by (simp add: well_formed_def initial_def bucket_def)

lemma well_formed_construct: "well_formed w \<Longrightarrow> well_formed (construct w ob)"
  unfolding well_formed_def construct_def bucket_def
  by (simp split: if_splits)

lemma well_formed_destruct: "well_formed w \<Longrightarrow> well_formed (destruct w ob)"
  unfolding well_formed_def destruct_def bucket_def
  by (simp split: if_splits)


lemma well_formed_listen:
  assumes wf: "well_formed w" and l: "listen w this ty cb cap pas onc = Inr w'"
  shows "well_formed w'"
proof -
  from l obtain m where m: "listeners w this = Some m"
    by (cases "listeners w this") (auto simp: listen_def)
  show ?thesis
  proof (cases "m ty")
    case (Some a)
    from listen_existing [OF m Some] l
    have w': "w' = w\<lparr>arrays := (arrays w)(a := upsert cb cap pas onc (arrays w a))\<rparr>"
      by simp
    have b: "bucket w' = bucket w"
      by (simp add: w' bucket_def fun_eq_iff)
    from m Some have ba: "bucket w this ty = Some a" by (simp add: bucket_def)
    with wf have "\<forall>l\<in>set (arrays w a). \<not> removed l" "distinct (map key_of (arrays w a))"
      by (auto simp: well_formed_def)
    note u = upsert_well [OF this, of cb cap pas onc]
    show ?thesis
      unfolding well_formed_def b
    proof (intro conjI allI impI)
      fix h t a' assume h: "bucket w h t = Some a'"
      with wf have old: "a' < fresh w" "arrays w a' \<noteq> []"
        "\<forall>l\<in>set (arrays w a'). \<not> removed l" "distinct (map key_of (arrays w a'))"
        by (auto simp: well_formed_def)
      show "a' < fresh w'" using old by (simp add: w')
      show "arrays w' a' \<noteq> []" using old u by (simp add: w')
      show "\<forall>l\<in>set (arrays w' a'). \<not> removed l" using old u by (simp add: w')
      show "distinct (map key_of (arrays w' a'))" using old u by (simp add: w')
    next
      fix h t h' t' a'
      assume "bucket w h t = Some a'" "bucket w h' t' = Some a'"
      with wf show "h = h'" "t = t'" by (auto simp: well_formed_def)
    qed
  next
    case None
    let ?new = "\<lparr>callback = cb, capture = cap, passive = pas, removed = False, once = onc\<rparr>"
    from listen_new [OF m None] l
    have w': "w' = w\<lparr>listeners := (listeners w)(this \<mapsto> m(ty \<mapsto> fresh w)),
                      arrays := (arrays w)(fresh w := [?new]), fresh := Suc (fresh w)\<rparr>"
      by simp
    have b: "bucket w' h t = (if h = this \<and> t = ty then Some (fresh w) else bucket w h t)"
      for h t
      using m by (simp add: w' bucket_def)
    have lt: "a < fresh w" if "bucket w h t = Some a" for h t a
      using wf that by (auto simp: well_formed_def)
    show ?thesis
      unfolding well_formed_def
    proof (rule conjI; intro allI impI)
      fix h t a' assume h: "bucket w' h t = Some a'"
      show "a' < fresh w' \<and> arrays w' a' \<noteq> [] \<and> (\<forall>l\<in>set (arrays w' a'). \<not> removed l)
             \<and> distinct (map key_of (arrays w' a'))"
      proof (cases "h = this \<and> t = ty")
        case True
        with h b have "a' = fresh w" by simp
        then show ?thesis by (simp add: w')
      next
        case False
        with h b have old: "bucket w h t = Some a'" by auto
        from lt [OF old] have "a' \<noteq> fresh w" "a' < Suc (fresh w)" by simp_all
        with wf old show ?thesis by (auto simp: w' well_formed_def)
      qed
    next
      fix h t h' t' a'
      assume 1: "bucket w' h t = Some a'" and 2: "bucket w' h' t' = Some a'"
      show "h = h' \<and> t = t'"
        using 1 2 wf lt unfolding b well_formed_def
        by (auto split: if_splits)
    qed
  qed
qed

lemma distinct_keys_one_match:
  "distinct (map key_of ls) \<Longrightarrow> length (filter (same_key cb cap) ls) \<le> 1"
proof (induction ls)
  case Nil
  show ?case by simp
next
  case (Cons l ls)
  show ?case
  proof (cases "same_key cb cap l")
    case False
    with Cons show ?thesis by simp
  next
    case True
    then have "key_of l = (cb, cap)" by (simp add: same_key_def key_of_def)
    with Cons.prems have "\<forall>x\<in>set ls. \<not> same_key cb cap x"
      by (auto simp: same_key_def key_of_def image_iff)
    then have "filter (same_key cb cap) ls = []" by (simp add: filter_empty_conv)
    with True show ?thesis by simp
  qed
qed

lemma unlisten_missing_type:
  assumes "listeners w this = Some m" and "m ty = None"
  shows "unlisten w this ty cb cap = Inr w"
  using assms by (simp add: unlisten_def)

lemma unlisten_existing:
  assumes "listeners w this = Some m" and "m ty = Some a"
  shows "unlisten w this ty cb cap =
           Inr (if unlisten_loop (arrays w a) cb cap 0 = []
                then w\<lparr>arrays := (arrays w)(a := []),
                       listeners := (listeners w)(this \<mapsto> m(ty := None))\<rparr>
                else w\<lparr>arrays := (arrays w)(a := unlisten_loop (arrays w a) cb cap 0)\<rparr>)"
  using assms by (simp add: unlisten_def Let_def)

lemma well_formed_unlisten:
  assumes wf: "well_formed w" and u: "unlisten w this ty cb cap = Inr w'"
  shows "well_formed w'"
proof -
  from u obtain m where m: "listeners w this = Some m"
    by (cases "listeners w this") (auto simp: unlisten_def)
  show ?thesis
  proof (cases "m ty")
    case None
    from unlisten_missing_type [OF m None] u wf show ?thesis by simp
  next
    case (Some a)
    let ?ls = "unlisten_loop (arrays w a) cb cap 0"
    from m Some have ba: "bucket w this ty = Some a" by (simp add: bucket_def)
    have other: "a' \<noteq> a" if "bucket w h t = Some a'" "\<not> (h = this \<and> t = ty)" for h t a'
      using wf ba that unfolding well_formed_def by blast
    have sub: "set ?ls \<subseteq> set (arrays w a)" by (rule unlisten_loop_subset)
    from wf ba have d: "distinct (map key_of (arrays w a))"
      and nr: "\<forall>l\<in>set (arrays w a). \<not> removed l"
      by (auto simp: well_formed_def)
    have f: "?ls = filter (\<lambda>l. \<not> same_key cb cap l) (arrays w a)"
      using unlisten_loop_filter [of cb cap 0 "arrays w a"] distinct_keys_one_match [OF d]
      by simp
    have dl: "distinct (map key_of ?ls)"
      unfolding f using d by (rule distinct_map_filter)
    show ?thesis
    proof (cases "?ls = []")
      case True
      with unlisten_existing [OF m Some] u
      have w': "w' = w\<lparr>arrays := (arrays w)(a := []),
                        listeners := (listeners w)(this \<mapsto> m(ty := None))\<rparr>"
        by simp
      have b: "bucket w' h t = (if h = this \<and> t = ty then None else bucket w h t)" for h t
        using m by (simp add: w' bucket_def)
      show ?thesis
        unfolding well_formed_def
      proof (rule conjI; intro allI impI)
        fix h t a' assume h: "bucket w' h t = Some a'"
        then have old: "bucket w h t = Some a'" and ne: "\<not> (h = this \<and> t = ty)"
          unfolding b by (auto split: if_splits)
        from other [OF old ne] have "arrays w' a' = arrays w a'" by (simp add: w')
        with wf old show "a' < fresh w' \<and> arrays w' a' \<noteq> [] \<and>
            (\<forall>l\<in>set (arrays w' a'). \<not> removed l) \<and> distinct (map key_of (arrays w' a'))"
          by (auto simp: w' well_formed_def)
      next
        fix h t h' t' a'
        assume "bucket w' h t = Some a'" "bucket w' h' t' = Some a'"
        then have "bucket w h t = Some a'" "bucket w h' t' = Some a'"
          unfolding b by (auto split: if_splits)
        with wf show "h = h' \<and> t = t'" by (auto simp: well_formed_def)
      qed
    next
      case False
      with unlisten_existing [OF m Some] u
      have w': "w' = w\<lparr>arrays := (arrays w)(a := ?ls)\<rparr>"
        by simp
      have b: "bucket w' = bucket w" by (simp add: w' bucket_def fun_eq_iff)
      show ?thesis
        unfolding well_formed_def b
      proof (rule conjI; intro allI impI)
        fix h t a' assume old: "bucket w h t = Some a'"
        show "a' < fresh w' \<and> arrays w' a' \<noteq> [] \<and>
            (\<forall>l\<in>set (arrays w' a'). \<not> removed l) \<and> distinct (map key_of (arrays w' a'))"
        proof (cases "a' = a")
          case True
          with wf old False sub nr dl show ?thesis
            by (auto simp: w' well_formed_def)
        next
          case ne: False
          with wf old show ?thesis by (auto simp: w' well_formed_def)
        qed
      next
        fix h t h' t' a'
        assume "bucket w h t = Some a'" "bucket w h' t' = Some a'"
        with wf show "h = h' \<and> t = t'" by (auto simp: well_formed_def)
      qed
    qed
  qed
qed

subsection \<open>Relations on the registry that every step of a dispatch respects\<close>

lemma run_callback_internal_rule:
  assumes refl: "\<And>w. Q w w"
    and trans: "\<And>w w1 w2. Q w w1 \<Longrightarrow> Q w1 w2 \<Longrightarrow> Q w w2"
    and un: "\<And>w ob ty cb cap w'. unlisten w ob ty cb cap = Inr w' \<Longrightarrow> Q w w'"
  shows "Q (internal s) (internal (state_after (run_callback c as s)))"
proof (induction c as s rule: run_callback.induct)
  case (1 c s)
  show ?case by (simp add: state_after_def refl)
next
  case (2 c as s)
  then show ?case by (simp add: preventDefault_internal)
next
  case (3 c as s)
  then show ?case by (simp add: stopPropagation_internal)
next
  case (4 c as s)
  show ?case by (simp add: state_after_def refl)
next
  case (5 c ob ty cb cap as s)
  show ?case
  proof (cases "unlisten (internal s) ob ty cb cap")
    case (Inl e)
    then show ?thesis by (simp add: state_after_def refl)
  next
    case (Inr w)
    from un [OF Inr] have "Q (internal s) w" .
    moreover from "5.IH" [OF Inr]
    have "Q w (internal (state_after (run_callback c as (s\<lparr>internal := w\<rparr>))))" by simp
    ultimately show ?thesis using Inr by (auto intro: trans)
  qed
qed

lemma invoke_internal_rule:
  assumes refl: "\<And>w. Q w w"
    and trans: "\<And>w w1 w2. Q w w1 \<Longrightarrow> Q w1 w2 \<Longrightarrow> Q w w2"
    and un: "\<And>w ob ty cb cap w'. unlisten w ob ty cb cap = Inr w' \<Longrightarrow> Q w w'"
  shows "Q (internal s) (internal (state_after (invoke B ob cap l s)))"
proof -
  let ?r = "run_callback (callback l) (B (callback l)) (align l s)"
  have "Q (internal (align l s)) (internal (state_after ?r))"
    using refl trans un by (rule run_callback_internal_rule [where Q = Q])
  moreover have "internal (align l s) = internal s" by (simp add: align_def)
  moreover have "internal (state_after (call_listener B l s)) = internal (state_after ?r)"
    by (cases ?r) (auto simp: call_listener_def state_after_def record_call_def)
  ultimately have c: "Q (internal s) (internal (state_after (call_listener B l s)))"
    by simp
  show ?thesis
  proof (cases "call_listener B l s")
    case (Inl err)
    with c show ?thesis by (simp add: invoke_def)
  next
    case (Inr s1)
    with c have 1: "Q (internal s) (internal s1)" by (simp add: state_after_def)
    have 2: "Q (internal s1) (internal (state_after (unlisten_once ob l cap s1)))"
    proof (cases "unlisten (internal s1) ob (etype (event s1)) (callback l) cap")
      case (Inl e)
      then show ?thesis by (simp add: unlisten_once_def state_after_def refl)
    next
      case (Inr w)
      with un [OF Inr] show ?thesis by (simp add: unlisten_once_def state_after_def refl)
    qed
    from trans [OF 1 2] Inr show ?thesis by (simp add: invoke_def)
  qed
qed

lemma traversal_internal_rule:
  assumes refl: "\<And>w. Q w w"
    and trans: "\<And>w w1 w2. Q w w1 \<Longrightarrow> Q w1 w2 \<Longrightarrow> Q w w2"
    and un: "\<And>w ob ty cb cap w'. unlisten w ob ty cb cap = Inr w' \<Longrightarrow> Q w w'"
  shows "Q (internal s) (internal (state_after (traversal B ancestors node s)))"
proof (rule traversal_rule [where R = "\<lambda>s r. Q (internal s) (internal (state_after r))"])
  show "Q (internal s) (internal (state_after (Inr s)))" for s :: dispatch_state
    by (simp add: state_after_def refl)
  show "Q (internal s) (internal (state_after r))"
    if "Q (internal s) (internal (state_after (Inr s1)))"
      and "Q (internal s1) (internal (state_after r))" for s s1 :: dispatch_state and r
    using that by (auto simp: state_after_def intro: trans)
  show "Q (internal s) (internal (state_after (fireListeners B s cap)))" for s cap
  proof (rule fireListeners_rule [where R = "\<lambda>s r. Q (internal s) (internal (state_after r))"])
    show "Q (internal s) (internal (state_after (Inr s)))" for s :: dispatch_state
      by (simp add: state_after_def refl)
    show "Q (internal s) (internal (state_after r))"
      if "Q (internal s) (internal (state_after (Inr s1)))"
        and "Q (internal s1) (internal (state_after r))" for s s1 :: dispatch_state and r
      using that by (auto simp: state_after_def intro: trans)
    show "Q (internal s) (internal (state_after (Inl (LISTENERS_MAP_MISSED, s))))"
      for s :: dispatch_state
      by (simp add: state_after_def refl)
    show "Q (internal s) (internal (state_after (invoke B (handler (ctx s)) cap l s)))"
      for l s
      using refl trans un by (rule invoke_internal_rule [where Q = Q])
  qed
  show "Q (internal s) (internal (state_after (Inr (visit p h s))))" for s p h
    by (simp add: state_after_def visit_def refl)
  show "Q (internal s) (internal (state_after (Inr (unset_phase s))))" for s
    by (simp add: state_after_def unset_phase_def refl)
qed

lemma well_formed_traversal:
  assumes "well_formed (internal s)"
  shows "well_formed (internal (state_after (traversal B ancestors node s)))"
  using traversal_internal_rule [where Q = "\<lambda>w w'. well_formed w \<longrightarrow> well_formed w'",
      of s B ancestors node] assms well_formed_unlisten
  by blast

lemma well_formed_apply_op: "well_formed w \<Longrightarrow> well_formed (apply_op B w op)"
proof (cases op)
  case (OpDispatch ob ancestors ty)
  assume "well_formed w"
  then have "well_formed (internal (start w ob ty))" by (simp add: start_def)
  from well_formed_traversal [OF this, of B ancestors ob] OpDispatch show ?thesis
    by (simp add: dispatch_def state_after_dispatchEvent)
qed (auto simp: well_formed_construct well_formed_destruct
       intro: well_formed_listen well_formed_unlisten split: sum.splits)

lemma well_formed_run_ops: "well_formed (run_ops B ops)"
proof -
  have "well_formed w \<Longrightarrow> well_formed (foldl (apply_op B) w ops)" for w
    by (induction ops arbitrary: w) (simp_all add: well_formed_apply_op)
  then show ?thesis
    unfolding run_ops_def using well_formed_initial by blast
qed

lemmas run_simps =
  run_ops_def initial_def construct_def destruct_def listen_def listen_loop_eq same_key_def
  unlisten_def unlisten_loop.simps dispatch_def dispatchEvent_def start_def
  new_EventBinder_def new_Event_def capturing_loop.simps bubbling_loop.simps
  fireListeners_def getListenersMaps_def fire_loop.simps invoke_def call_listener_def
  align_def record_call_def unlisten_once_def preventDefault_def stopPropagation_def
  state_after_def state_after_dispatch_def Let_def

section \<open>Properties of the registry\<close>

text \<open>
  C7. In every registry that a sequence of constructions, destructions and calls of
  \<^verbatim>\<open>listen\<close>, \<^verbatim>\<open>unlisten\<close> and \<^verbatim>\<open>dispatch\<close> can produce (the removal of one-time
  listeners during a dispatch included), every array that the map of an object holds for
  an event type has an entry that is not removed: no event type is left with an array
  without live entries.
\<close>

theorem no_bucket_without_live_entries:
  "\<forall>h m ty a. listeners (run_ops B ops) h = Some m \<longrightarrow> m ty = Some a \<longrightarrow>
     (\<exists>l\<in>set (arrays (run_ops B ops) a). \<not> removed l)"
proof (intro allI impI)
  fix h m ty a
  assume "listeners (run_ops B ops) h = Some m" and "m ty = Some a"
  then have "bucket (run_ops B ops) h ty = Some a" by (simp add: bucket_def)
  with well_formed_run_ops [of B ops]
  have "arrays (run_ops B ops) a \<noteq> []" "\<forall>l\<in>set (arrays (run_ops B ops) a). \<not> removed l"
    by (auto simp: well_formed_def)
  then show "\<exists>l\<in>set (arrays (run_ops B ops) a). \<not> removed l"
    by (cases "arrays (run_ops B ops) a") auto
qed

theorem no_bucket_without_live_entries_witness:
  "(\<exists>m. listeners (run_ops (\<lambda>c. [])
            [OpConstruct 0, OpListen 0 ''x'' 10 False False True,
             OpListen 0 ''y'' 11 False False False, OpDispatch 0 [] ''x'']) 0 = Some m
        \<and> m ''x'' = None \<and> m ''y'' = Some 1)
   \<and> (\<exists>l\<in>set (arrays (run_ops (\<lambda>c. [])
            [OpConstruct 0, OpListen 0 ''x'' 10 False False True,
             OpListen 0 ''y'' 11 False False False, OpDispatch 0 [] ''x'']) 1). \<not> removed l)"
proof -
  let ?w = "run_ops (\<lambda>c. [])
            [OpConstruct 0, OpListen 0 ''x'' 10 False False True,
             OpListen 0 ''y'' 11 False False False, OpDispatch 0 [] ''x'']"
  have m: "\<exists>m. listeners ?w 0 = Some m \<and> m ''x'' = None \<and> m ''y'' = Some 1"
    by (simp add: run_simps)
  then obtain m where "listeners ?w 0 = Some m" "m ''y'' = Some 1" by blast
  with no_bucket_without_live_entries [of "\<lambda>c. []"
      "[OpConstruct 0, OpListen 0 ''x'' 10 False False True,
        OpListen 0 ''y'' 11 False False False, OpDispatch 0 [] ''x'']"]
  have "\<exists>l\<in>set (arrays ?w 1). \<not> removed l" by blast
  with m show ?thesis by blast
qed

section \<open>One call of a listener\<close>

lemma run_callback_trace: "trace (state_after (run_callback c as s)) = trace s"
  by (induction c as s rule: run_callback.induct)
     (auto simp: state_after_def preventDefault_def stopPropagation_def split: sum.splits)

lemma run_callback_bpassive:
  "bpassive (ctx (state_after (run_callback c as s))) = bpassive (ctx s)"
  by (induction c as s rule: run_callback.induct)
     (auto simp: state_after_def preventDefault_def stopPropagation_def split: sum.splits)

lemma run_callback_error:
  "run_callback c as s = Inl (e, s') \<Longrightarrow> e = CALLBACK_ERROR c \<or> e = LISTENERS_MAP_MISSED"
  by (induction c as s rule: run_callback.induct)
     (auto simp: unlisten_error split: sum.splits)

lemma run_callback_stopped:
  "stopped (ctx (state_after (run_callback c as s))) \<Longrightarrow>
     stopped (ctx s) \<or> \<not> bpassive (ctx s) \<and> StopPropagation \<in> set as"
proof (induction c as s rule: run_callback.induct)
  case (3 c as s)
  then show ?case by (auto simp: stopPropagation_def split: if_splits)
next
  case (5 c ob ty cb cap as s)
  then show ?case by (cases "unlisten (internal s) ob ty cb cap") (auto simp: state_after_def)
qed (auto simp: state_after_def preventDefault_def split: if_splits)

text \<open>A callback that makes no call of \<^verbatim>\<open>unlisten\<close> leaves the registry as it is.\<close>

fun is_unlisten :: "action \<Rightarrow> bool" where
  "is_unlisten (Unlisten ob ty cb cap) = True"
| "is_unlisten a = False"

lemma run_callback_internal:
  "\<forall>a\<in>set as. \<not> is_unlisten a \<Longrightarrow> internal (state_after (run_callback c as s)) = internal s"
  by (induction c as s rule: run_callback.induct)
     (auto simp: state_after_def preventDefault_def stopPropagation_def)

text \<open>
  What \<open>invoke\<close> appends to the log, for a listener on an object that has a listeners
  map: one entry, which describes the listener and the context at the end of the call.
\<close>

lemma call_listener_shape:
  "\<exists>e. trace (state_after (call_listener B l s)) = trace s @ [e]
     \<and> inv_handler e = handler (ctx s) \<and> inv_phase e = phase (ctx s)
     \<and> inv_callback e = callback l \<and> inv_capture e = capture l
     \<and> inv_passive e = passive l \<and> inv_once e = once l
     \<and> inv_stopped e = stopped (ctx (state_after (call_listener B l s)))
     \<and> inv_error e = (case call_listener B l s of Inl (err, s') \<Rightarrow> Some err | Inr s' \<Rightarrow> None)
     \<and> bpassive (ctx (state_after (call_listener B l s))) = passive l"
proof -
  let ?r = "run_callback (callback l) (B (callback l)) (align l s)"
  have t: "trace (state_after ?r) = trace s"
    by (simp add: run_callback_trace align_def)
  have p: "bpassive (ctx (state_after ?r)) = passive l"
    by (simp add: run_callback_bpassive) (simp add: align_def)
  have f: "frame s (state_after ?r)"
    using run_callback_frame [of "align l s" "callback l" "B (callback l)"]
    by (simp add: frame_def align_def)
  show ?thesis
  proof (cases ?r)
    case (Inl x)
    then obtain err s1 where x: "?r = Inl (err, s1)" by (cases x) auto
    with t p f show ?thesis
      by (simp add: call_listener_def record_call_def state_after_def frame_def)
  next
    case (Inr s1)
    with t p f show ?thesis
      by (simp add: call_listener_def record_call_def state_after_def frame_def)
  qed
qed

lemma unlisten_once_returns:
  assumes "listeners (internal s) ob \<noteq> None"
  shows "\<exists>w. unlisten_once ob l cap s = Inr (s\<lparr>internal := w\<rparr>)"
proof (cases "once l")
  case False
  then have "unlisten_once ob l cap s = Inr (s\<lparr>internal := internal s\<rparr>)"
    by (simp add: unlisten_once_def)
  then show ?thesis ..
next
  case True
  show ?thesis
  proof (cases "unlisten (internal s) ob (etype (event s)) (callback l) cap")
    case (Inl e)
    with assms show ?thesis by (simp add: unlisten_error)
  next
    case (Inr w)
    with True have "unlisten_once ob l cap s = Inr (s\<lparr>internal := w\<rparr>)"
      by (simp add: unlisten_once_def)
    then show ?thesis ..
  qed
qed

lemma invoke_shape:
  assumes "listeners (internal s) ob \<noteq> None"
  shows "\<exists>e. trace (state_after (invoke B ob cap l s)) = trace s @ [e]
     \<and> inv_handler e = handler (ctx s) \<and> inv_phase e = phase (ctx s)
     \<and> inv_callback e = callback l \<and> inv_capture e = capture l
     \<and> inv_passive e = passive l \<and> inv_once e = once l
     \<and> inv_stopped e = stopped (ctx (state_after (invoke B ob cap l s)))
     \<and> inv_error e = (case invoke B ob cap l s of Inl (err, s') \<Rightarrow> Some err | Inr s' \<Rightarrow> None)"
proof (cases "call_listener B l s")
  case (Inl x)
  then have "invoke B ob cap l s = call_listener B l s" by (simp add: invoke_def)
  with call_listener_shape [of B l s] show ?thesis by (elim exE conjE) (rule exI, simp)
next
  case (Inr s1)
  from call_listener_frame [of s B l] Inr assms
  have "listeners (internal s1) ob \<noteq> None"
    by (auto simp: frame_def state_after_def)
  then have "\<exists>w. unlisten_once ob l cap s1 = Inr (s1\<lparr>internal := w\<rparr>)"
    by (rule unlisten_once_returns)
  then obtain w where w: "unlisten_once ob l cap s1 = Inr (s1\<lparr>internal := w\<rparr>)" ..
  with Inr have i: "invoke B ob cap l s = Inr (s1\<lparr>internal := w\<rparr>)"
    by (simp add: invoke_def)
  from call_listener_shape [of B l s] Inr show ?thesis
    by (elim exE conjE) (rule exI, simp add: i state_after_def)
qed

subsection \<open>The rule for a whole traversal, from what one invoke does\<close>

lemma traversal_step_rule:
  assumes ret: "\<And>s. R s (Inr s)"
    and seq: "\<And>s s1 r. R s (Inr s1) \<Longrightarrow> R s1 r \<Longrightarrow> R s r"
    and miss: "\<And>s. listeners (internal s) (handler (ctx s)) = None \<Longrightarrow>
                 handler (ctx s) \<in> set (node # ancestors) \<Longrightarrow>
                 R s (Inl (LISTENERS_MAP_MISSED, s))"
    and step: "\<And>l s cap. capture l = cap \<Longrightarrow> \<not> removed l \<Longrightarrow> \<not> stopped (ctx s) \<Longrightarrow>
                 listeners (internal s) (handler (ctx s)) \<noteq> None \<Longrightarrow>
                 phase (ctx s) \<noteq> NONE \<Longrightarrow> handler (ctx s) \<in> set (node # ancestors) \<Longrightarrow>
                 R s (invoke B (handler (ctx s)) cap l s)"
    and upd: "\<And>s p h. p \<noteq> NONE \<Longrightarrow> h \<in> set (node # ancestors) \<Longrightarrow> R s (Inr (visit p h s))"
    and fin: "\<And>s. R s (Inr (unset_phase s))"
  shows "R s (traversal B ancestors node s)"
proof (rule traversal_rule [where R = R, OF ret seq _ upd fin])
  fix s :: dispatch_state and cap
  assume v: "visiting ancestors node s cap"
  define pre where "pre = (\<lambda>s :: dispatch_state.
    phase (ctx s) \<noteq> NONE \<and> handler (ctx s) \<in> set (node # ancestors))"
  define R' where "R' = (\<lambda>s r. pre s \<longrightarrow> R s r \<and> frame s (state_after r))"
  have "R' s (fireListeners B s cap)"
  proof (rule fireListeners_rule [where R = R'])
    show "R' s (Inr s)" for s
      by (simp add: R'_def ret state_after_def frame_refl)
    show "R' s r" if "R' s (Inr s1)" and "R' s1 r" for s s1 r
    proof -
      { assume p: "pre s"
        with that(1) have 1: "R s (Inr s1)" and f1: "frame s s1"
          by (simp_all add: R'_def state_after_def)
        from p f1 have "pre s1" by (simp add: pre_def frame_def)
        with that(2) have 2: "R s1 r" and f2: "frame s1 (state_after r)"
          by (simp_all add: R'_def)
        from seq [OF 1 2] frame_trans [OF f1 f2]
        have "R s r \<and> frame s (state_after r)" by simp }
      then show ?thesis by (simp add: R'_def)
    qed
    show "R' s (Inl (LISTENERS_MAP_MISSED, s))"
      if "listeners (internal s) (handler (ctx s)) = None" for s
      using that by (simp add: R'_def pre_def miss state_after_def frame_refl)
    show "R' s (invoke B (handler (ctx s)) cap l s)"
      if "capture l = cap" "\<not> removed l" "\<not> stopped (ctx s)"
        "listeners (internal s) (handler (ctx s)) \<noteq> None" for l s
      using that step [of l cap s] invoke_frame [of s B "handler (ctx s)" cap l]
      by (simp add: R'_def pre_def)
  qed
  moreover from v have "pre s" by (auto simp: visiting_def pre_def)
  ultimately show "R s (fireListeners B s cap)" by (simp add: R'_def)
qed


subsection \<open>What the log of a dispatch looks like\<close>

definition log_ok :: "dispatch_state \<Rightarrow> bool" where
  "log_ok s \<longleftrightarrow>
     (\<forall>e\<in>set (butlast (trace s)). \<not> inv_stopped e) \<and>
     (\<forall>e\<in>set (trace s). inv_error e = None) \<and>
     (stopped (ctx s) \<longleftrightarrow> trace s \<noteq> [] \<and> inv_stopped (last (trace s)))"

definition log_ok_err :: "error \<Rightarrow> dispatch_state \<Rightarrow> bool" where
  "log_ok_err err s \<longleftrightarrow>
     (\<forall>e\<in>set (butlast (trace s)). \<not> inv_stopped e \<and> inv_error e = None) \<and>
     (stopped (ctx s) \<longleftrightarrow> trace s \<noteq> [] \<and> inv_stopped (last (trace s))) \<and>
     (trace s \<noteq> [] \<and> inv_error (last (trace s)) = Some err \<and>
        inv_phase (last (trace s)) = phase (ctx s) \<and>
        inv_handler (last (trace s)) = handler (ctx s) \<and>
        (\<forall>c. err = CALLBACK_ERROR c \<longrightarrow> inv_callback (last (trace s)) = c)
      \<or> err = LISTENERS_MAP_MISSED \<and> (\<forall>e\<in>set (trace s). inv_error e = None) \<and>
        listeners (internal s) (handler (ctx s)) = None)"

definition log_result :: "dispatch_state result \<Rightarrow> bool" where
  "log_result r = (case r of Inl (err, s) \<Rightarrow> log_ok_err err s | Inr s \<Rightarrow> log_ok s)"

lemma invoke_error:
  assumes "invoke B ob cap l s = Inl (e, s')"
  shows "e = CALLBACK_ERROR (callback l) \<or> e = LISTENERS_MAP_MISSED"
proof (cases "call_listener B l s")
  case (Inl x)
  with assms have "call_listener B l s = Inl (e, s')" by (simp add: invoke_def)
  then obtain s1 where "run_callback (callback l) (B (callback l)) (align l s) = Inl (e, s1)"
    by (auto simp: call_listener_def split: sum.splits prod.splits)
  then show ?thesis by (rule run_callback_error)
next
  case (Inr s1)
  with assms have "unlisten_once ob l cap s1 = Inl (e, s')" by (simp add: invoke_def)
  then show ?thesis
    by (auto simp: unlisten_once_def unlisten_error split: if_splits sum.splits)
qed

lemma invoke_log:
  assumes ok: "log_ok s" and ns: "\<not> stopped (ctx s)"
    and reg: "listeners (internal s) (handler (ctx s)) \<noteq> None"
  shows "log_result (invoke B (handler (ctx s)) cap l s)"
proof -
  let ?r = "invoke B (handler (ctx s)) cap l s"
  from invoke_shape [OF reg, of B cap l] obtain e
    where t: "trace (state_after ?r) = trace s @ [e]"
      and h: "inv_handler e = handler (ctx s)" and p: "inv_phase e = phase (ctx s)"
      and c: "inv_callback e = callback l"
      and st: "inv_stopped e = stopped (ctx (state_after ?r))"
      and er: "inv_error e = (case ?r of Inl (err, s') \<Rightarrow> Some err | Inr s' \<Rightarrow> None)"
    by blast
  from ok ns have old: "\<forall>x\<in>set (trace s). \<not> inv_stopped x \<and> inv_error x = None"
    by (cases "trace s" rule: rev_cases) (auto simp: log_ok_def)
  have f: "frame s (state_after ?r)" by (rule invoke_frame)
  show ?thesis
  proof (cases ?r)
    case (Inr s')
    with t st er old show ?thesis
      by (auto simp: log_result_def log_ok_def state_after_def)
  next
    case (Inl x)
    then obtain err s' where x: "?r = Inl (err, s')" by (cases x) auto
    from invoke_error [OF x] have "\<forall>c. err = CALLBACK_ERROR c \<longrightarrow> callback l = c" by auto
    with x t st er old h p c f show ?thesis
      by (auto simp: log_result_def log_ok_err_def state_after_def frame_def)
  qed
qed

lemma traversal_log:
  assumes "log_ok s"
  shows "log_result (traversal B ancestors node s)"
proof -
  have "log_ok s \<longrightarrow> log_result (traversal B ancestors node s)"
  proof (rule traversal_step_rule [where R = "\<lambda>s r. log_ok s \<longrightarrow> log_result r"])
    show "log_ok s \<longrightarrow> log_result (Inr s)" for s
      by (simp add: log_result_def)
    show "log_ok s \<longrightarrow> log_result r"
      if "log_ok s \<longrightarrow> log_result (Inr s1)" and "log_ok s1 \<longrightarrow> log_result r" for s s1 r
      using that by (simp add: log_result_def)
    show "log_ok s \<longrightarrow> log_result (Inl (LISTENERS_MAP_MISSED, s))"
      if "listeners (internal s) (handler (ctx s)) = None" for s
      using that by (auto simp: log_result_def log_ok_def log_ok_err_def dest: in_set_butlastD)
    show "log_ok s \<longrightarrow> log_result (invoke B (handler (ctx s)) cap l s)"
      if "\<not> stopped (ctx s)" "listeners (internal s) (handler (ctx s)) \<noteq> None" for l s cap
      using that invoke_log by blast
    show "log_ok s \<longrightarrow> log_result (Inr (visit p h s))" for s p h
      by (simp add: log_result_def log_ok_def visit_def)
    show "log_ok s \<longrightarrow> log_result (Inr (unset_phase s))" for s
      by (simp add: log_result_def log_ok_def unset_phase_def)
  qed
  with assms show ?thesis by simp
qed

lemma log_ok_start: "log_ok (start w node ty)"
  by (simp add: log_ok_def start_def new_EventBinder_def)

subsection \<open>Where a stop comes from\<close>

lemma unlisten_once_ctx:
  "ctx (state_after (unlisten_once ob l cap s)) = ctx s"
  "trace (state_after (unlisten_once ob l cap s)) = trace s"
  "event (state_after (unlisten_once ob l cap s)) = event s"
  by (auto simp: unlisten_once_def state_after_def split: sum.splits)

lemma invoke_after_call:
  "ctx (state_after (invoke B ob cap l s)) = ctx (state_after (call_listener B l s))"
  "trace (state_after (invoke B ob cap l s)) = trace (state_after (call_listener B l s))"
  "event (state_after (invoke B ob cap l s)) = event (state_after (call_listener B l s))"
proof -
  show "ctx (state_after (invoke B ob cap l s)) = ctx (state_after (call_listener B l s))"
  proof (cases "call_listener B l s")
    case (Inl x)
    then show ?thesis by (simp add: invoke_def)
  next
    case (Inr s1)
    with unlisten_once_ctx(1) [of ob l cap s1] show ?thesis
      by (simp add: invoke_def state_after_def)
  qed
  show "trace (state_after (invoke B ob cap l s)) = trace (state_after (call_listener B l s))"
  proof (cases "call_listener B l s")
    case (Inl x)
    then show ?thesis by (simp add: invoke_def)
  next
    case (Inr s1)
    with unlisten_once_ctx(2) [of ob l cap s1] show ?thesis
      by (simp add: invoke_def state_after_def)
  qed
  show "event (state_after (invoke B ob cap l s)) = event (state_after (call_listener B l s))"
  proof (cases "call_listener B l s")
    case (Inl x)
    then show ?thesis by (simp add: invoke_def)
  next
    case (Inr s1)
    with unlisten_once_ctx(3) [of ob l cap s1] show ?thesis
      by (simp add: invoke_def state_after_def)
  qed
qed

lemma call_listener_ctx:
  "ctx (state_after (call_listener B l s)) =
     ctx (state_after (run_callback (callback l) (B (callback l)) (align l s)))"
  "event (state_after (call_listener B l s)) =
     event (state_after (run_callback (callback l) (B (callback l)) (align l s)))"
  by (auto simp: call_listener_def state_after_def record_call_def split: sum.splits)

lemma invoke_stopped:
  assumes "stopped (ctx (state_after (invoke B ob cap l s)))"
  shows "stopped (ctx s) \<or> \<not> passive l \<and> StopPropagation \<in> set (B (callback l))"
proof -
  from assms
  have "stopped (ctx (state_after (run_callback (callback l) (B (callback l)) (align l s))))"
    by (simp add: invoke_after_call call_listener_ctx)
  from run_callback_stopped [OF this] show ?thesis
    by (auto simp: align_def split: if_splits)
qed

definition effective_stop :: "behaviour \<Rightarrow> invocation \<Rightarrow> bool" where
  "effective_stop B e \<longleftrightarrow> \<not> inv_passive e \<and> StopPropagation \<in> set (B (inv_callback e))"

definition stop_origin :: "behaviour \<Rightarrow> dispatch_state \<Rightarrow> dispatch_state \<Rightarrow> bool" where
  "stop_origin B s s' \<longleftrightarrow>
     (\<exists>new. trace s' = trace s @ new \<and>
        (stopped (ctx s') \<longrightarrow> stopped (ctx s) \<or> (\<exists>e\<in>set new. effective_stop B e)))"

lemma stop_origin_refl: "stop_origin B s s"
  by (simp add: stop_origin_def)

lemma stop_origin_trans:
  assumes "stop_origin B s s1" and "stop_origin B s1 s2"
  shows "stop_origin B s s2"
proof -
  from assms(1) obtain n1 where 1: "trace s1 = trace s @ n1"
    "stopped (ctx s1) \<longrightarrow> stopped (ctx s) \<or> (\<exists>e\<in>set n1. effective_stop B e)"
    by (auto simp: stop_origin_def)
  from assms(2) obtain n2 where 2: "trace s2 = trace s1 @ n2"
    "stopped (ctx s2) \<longrightarrow> stopped (ctx s1) \<or> (\<exists>e\<in>set n2. effective_stop B e)"
    by (auto simp: stop_origin_def)
  have "trace s2 = trace s @ (n1 @ n2)" using 1 2 by simp
  moreover have "stopped (ctx s2) \<longrightarrow> stopped (ctx s) \<or> (\<exists>e\<in>set (n1 @ n2). effective_stop B e)"
    using 1 2 by auto
  ultimately show ?thesis unfolding stop_origin_def by blast
qed

lemma traversal_stop_origin:
  "stop_origin B s (state_after (traversal B ancestors node s))"
proof (rule traversal_step_rule [where R = "\<lambda>s r. stop_origin B s (state_after r)"])
  show "stop_origin B s (state_after (Inr s))" for s
    by (simp add: state_after_def stop_origin_refl)
  show "stop_origin B s (state_after r)"
    if "stop_origin B s (state_after (Inr s1))" and "stop_origin B s1 (state_after r)"
    for s s1 r
    using that by (auto simp: state_after_def intro: stop_origin_trans)
  show "stop_origin B s (state_after (Inl (LISTENERS_MAP_MISSED, s)))" for s
    by (simp add: state_after_def stop_origin_refl)
  show "stop_origin B s (state_after (invoke B (handler (ctx s)) cap l s))"
    if reg: "listeners (internal s) (handler (ctx s)) \<noteq> None" for l s cap
  proof -
    let ?s' = "state_after (invoke B (handler (ctx s)) cap l s)"
    from invoke_shape [OF reg, of B cap l] obtain e
      where t: "trace ?s' = trace s @ [e]"
        and c: "inv_callback e = callback l" and p: "inv_passive e = passive l"
      by blast
    have "stopped (ctx ?s') \<longrightarrow> stopped (ctx s) \<or> (\<exists>x\<in>set [e]. effective_stop B x)"
      using invoke_stopped [of B "handler (ctx s)" cap l s] c p
      by (auto simp: effective_stop_def)
    with t show ?thesis unfolding stop_origin_def by blast
  qed
  show "stop_origin B s (state_after (Inr (visit p h s)))" for s p h
    by (simp add: state_after_def stop_origin_def visit_def)
  show "stop_origin B s (state_after (Inr (unset_phase s)))" for s
    by (simp add: state_after_def stop_origin_def unset_phase_def)
qed

subsection \<open>Calls that leave the registry alone\<close>

definition leaves_registry :: "behaviour \<Rightarrow> invocation \<Rightarrow> bool" where
  "leaves_registry B e \<longleftrightarrow> \<not> inv_once e \<and> (\<forall>a\<in>set (B (inv_callback e)). \<not> is_unlisten a)"

definition registry_kept :: "behaviour \<Rightarrow> dispatch_state \<Rightarrow> dispatch_state \<Rightarrow> bool" where
  "registry_kept B s s' \<longleftrightarrow>
     (\<exists>new. trace s' = trace s @ new \<and>
        ((\<forall>e\<in>set new. leaves_registry B e) \<longrightarrow> internal s' = internal s))"

lemma registry_kept_refl: "registry_kept B s s"
  by (simp add: registry_kept_def)

lemma registry_kept_trans:
  assumes "registry_kept B s s1" and "registry_kept B s1 s2"
  shows "registry_kept B s s2"
proof -
  from assms(1) obtain n1 where 1: "trace s1 = trace s @ n1"
    "(\<forall>e\<in>set n1. leaves_registry B e) \<longrightarrow> internal s1 = internal s"
    by (auto simp: registry_kept_def)
  from assms(2) obtain n2 where 2: "trace s2 = trace s1 @ n2"
    "(\<forall>e\<in>set n2. leaves_registry B e) \<longrightarrow> internal s2 = internal s1"
    by (auto simp: registry_kept_def)
  have "trace s2 = trace s @ (n1 @ n2)" using 1 2 by simp
  moreover have "(\<forall>e\<in>set (n1 @ n2). leaves_registry B e) \<longrightarrow> internal s2 = internal s"
    using 1 2 by auto
  ultimately show ?thesis unfolding registry_kept_def by blast
qed

lemma invoke_leaves_registry:
  assumes "\<not> once l" and "\<forall>a\<in>set (B (callback l)). \<not> is_unlisten a"
  shows "internal (state_after (invoke B ob cap l s)) = internal s"
proof -
  let ?r = "run_callback (callback l) (B (callback l)) (align l s)"
  have "internal (state_after ?r) = internal s"
    using run_callback_internal [OF assms(2), of "callback l" "align l s"]
    by (simp add: align_def)
  moreover have "internal (state_after (call_listener B l s)) = internal (state_after ?r)"
    by (auto simp: call_listener_def state_after_def record_call_def split: sum.splits)
  moreover have "internal (state_after (invoke B ob cap l s)) =
      internal (state_after (call_listener B l s))"
    using assms(1)
    by (cases "call_listener B l s") (auto simp: invoke_def unlisten_once_def state_after_def)
  ultimately show ?thesis by simp
qed

lemma traversal_registry_kept:
  "registry_kept B s (state_after (traversal B ancestors node s))"
proof (rule traversal_step_rule [where R = "\<lambda>s r. registry_kept B s (state_after r)"])
  show "registry_kept B s (state_after (Inr s))" for s
    by (simp add: state_after_def registry_kept_refl)
  show "registry_kept B s (state_after r)"
    if "registry_kept B s (state_after (Inr s1))" and "registry_kept B s1 (state_after r)"
    for s s1 r
    using that by (auto simp: state_after_def intro: registry_kept_trans)
  show "registry_kept B s (state_after (Inl (LISTENERS_MAP_MISSED, s)))" for s
    by (simp add: state_after_def registry_kept_refl)
  show "registry_kept B s (state_after (invoke B (handler (ctx s)) cap l s))"
    if reg: "listeners (internal s) (handler (ctx s)) \<noteq> None" for l s cap
  proof -
    let ?s' = "state_after (invoke B (handler (ctx s)) cap l s)"
    from invoke_shape [OF reg, of B cap l] obtain e
      where t: "trace ?s' = trace s @ [e]"
        and c: "inv_callback e = callback l" and p: "inv_once e = once l"
      by blast
    have "(\<forall>x\<in>set [e]. leaves_registry B x) \<longrightarrow> internal ?s' = internal s"
      using invoke_leaves_registry [of l B "handler (ctx s)" cap s] c p
      by (auto simp: leaves_registry_def)
    with t show ?thesis unfolding registry_kept_def by blast
  qed
  show "registry_kept B s (state_after (Inr (visit p h s)))" for s p h
    by (simp add: state_after_def registry_kept_def visit_def)
  show "registry_kept B s (state_after (Inr (unset_phase s)))" for s
    by (simp add: state_after_def registry_kept_def unset_phase_def)
qed

subsection \<open>When a dispatch returns\<close>

text \<open>
  Callbacks that never throw and call \<^verbatim>\<open>unlisten\<close> only on objects of \<open>D\<close>.
\<close>

definition raises_nothing :: "behaviour \<Rightarrow> oref set \<Rightarrow> bool" where
  "raises_nothing B D \<longleftrightarrow>
     (\<forall>c. \<forall>a\<in>set (B c). a \<noteq> Throw \<and>
        (\<forall>ob ty cb cap. a = Unlisten ob ty cb cap \<longrightarrow> ob \<in> D))"

lemma run_callback_returns:
  assumes "\<forall>a\<in>set as. a \<noteq> Throw \<and>
      (\<forall>ob ty cb cap. a = Unlisten ob ty cb cap \<longrightarrow> ob \<in> dom (listeners (internal s)))"
  shows "\<exists>s'. run_callback c as s = Inr s'"
  using assms
proof (induction c as s rule: run_callback.induct)
  case (5 c ob ty cb cap as s)
  then have "ob \<in> dom (listeners (internal s))" by simp
  then obtain w where w: "unlisten (internal s) ob ty cb cap = Inr w"
    by (cases "unlisten (internal s) ob ty cb cap") (auto simp: unlisten_error)
  from unlisten_dom [OF w] "5.prems"
  have "\<forall>a\<in>set as. a \<noteq> Throw \<and>
      (\<forall>ob ty cb cap. a = Unlisten ob ty cb cap \<longrightarrow>
         ob \<in> dom (listeners (internal (s\<lparr>internal := w\<rparr>))))"
    by simp
  from "5.IH" [OF w this] w show ?case by simp
qed (simp_all add: preventDefault_internal stopPropagation_internal)

lemma invoke_returns:
  assumes "raises_nothing B (dom (listeners (internal s)))"
    and "listeners (internal s) ob \<noteq> None"
  shows "\<exists>s'. invoke B ob cap l s = Inr s'"
proof -
  have "\<forall>a\<in>set (B (callback l)). a \<noteq> Throw \<and>
      (\<forall>ob ty cb cap. a = Unlisten ob ty cb cap \<longrightarrow>
         ob \<in> dom (listeners (internal (align l s))))"
    using assms(1) by (simp add: raises_nothing_def align_def)
  from run_callback_returns [OF this, of "callback l"]
  obtain s1 where "call_listener B l s = Inr s1"
    by (auto simp: call_listener_def)
  moreover from this call_listener_frame [of s B l] assms(2)
  have "listeners (internal s1) ob \<noteq> None"
    by (auto simp: frame_def state_after_def)
  from unlisten_once_returns [OF this, of l cap]
  obtain w where "unlisten_once ob l cap s1 = Inr (s1\<lparr>internal := w\<rparr>)" ..
  ultimately show ?thesis by (simp add: invoke_def)
qed

lemma traversal_returns:
  assumes B: "raises_nothing B (dom (listeners (internal s)))"
    and H: "set (node # ancestors) \<subseteq> dom (listeners (internal s))"
  shows "\<exists>s'. traversal B ancestors node s = Inr s'"
proof -
  define D where "D = dom (listeners (internal s))"
  define R where "R = (\<lambda>(s :: dispatch_state) (r :: dispatch_state result).
    dom (listeners (internal s)) = D \<longrightarrow> (\<exists>s'. r = Inr s' \<and> dom (listeners (internal s')) = D))"
  have "R s (traversal B ancestors node s)"
  proof (rule traversal_step_rule [where R = R])
    show "R s (Inr s)" for s by (simp add: R_def)
    show "R s r" if "R s (Inr s1)" and "R s1 r" for s s1 r
      using that by (auto simp: R_def)
    show "R s (Inl (LISTENERS_MAP_MISSED, s))"
      if "listeners (internal s) (handler (ctx s)) = None"
        and "handler (ctx s) \<in> set (node # ancestors)" for s
      using that H unfolding R_def D_def [symmetric] by (auto simp: dom_def)
    show "R s (invoke B (handler (ctx s)) cap l s)"
      if reg: "listeners (internal s) (handler (ctx s)) \<noteq> None" for l s cap
    proof -
      { assume d: "dom (listeners (internal s)) = D"
        with B have "raises_nothing B (dom (listeners (internal s)))" by (simp add: D_def)
        from invoke_returns [OF this reg, of cap l]
        obtain s' where s': "invoke B (handler (ctx s)) cap l s = Inr s'" ..
        with invoke_frame [of s B "handler (ctx s)" cap l] d
        have "dom (listeners (internal s')) = D" by (simp add: frame_def state_after_def)
        with s' have "\<exists>s'. invoke B (handler (ctx s)) cap l s = Inr s' \<and>
            dom (listeners (internal s')) = D" by simp }
      then show ?thesis by (simp add: R_def)
    qed
    show "R s (Inr (visit p h s))" for s p h by (simp add: R_def visit_def)
    show "R s (Inr (unset_phase s))" for s by (simp add: R_def unset_phase_def)
  qed
  then show ?thesis by (auto simp: R_def D_def)
qed

lemma dispatchEvent_returns:
  assumes "raises_nothing B (dom (listeners w))"
    and "set (node # G node) \<subseteq> dom (listeners w)"
  shows "\<exists>s'. dispatchEvent B G w node ty = Inr (\<not> stopped (ctx s'), s')"
proof -
  from assms have "\<exists>s'. traversal B (G node) node (start w node ty) = Inr s'"
    by (intro traversal_returns) (simp_all add: start_def)
  then show ?thesis by (auto simp: dispatchEvent_traversal)
qed

subsection \<open>The order of the calls\<close>

definition in_phase :: "EventPhase \<Rightarrow> oref \<Rightarrow> bool \<Rightarrow> invocation \<Rightarrow> bool" where
  "in_phase p h cap e \<longleftrightarrow> inv_phase e = p \<and> inv_handler e = h \<and> inv_capture e = cap"

definition fired :: "bool \<Rightarrow> dispatch_state \<Rightarrow> dispatch_state \<Rightarrow> bool" where
  "fired cap s s' \<longleftrightarrow>
     frame s s' \<and>
     (\<exists>new. trace s' = trace s @ new \<and>
        (\<forall>e\<in>set new. in_phase (phase (ctx s)) (handler (ctx s)) cap e))"

lemma fired_refl: "fired cap s s"
  by (simp add: fired_def frame_refl)

lemma fired_trans:
  assumes "fired cap s s1" and "fired cap s1 s2"
  shows "fired cap s s2"
proof -
  from assms(1) obtain n1 where 1: "frame s s1" "trace s1 = trace s @ n1"
    "\<forall>e\<in>set n1. in_phase (phase (ctx s)) (handler (ctx s)) cap e"
    by (auto simp: fired_def)
  from assms(2) obtain n2 where 2: "frame s1 s2" "trace s2 = trace s1 @ n2"
    "\<forall>e\<in>set n2. in_phase (phase (ctx s1)) (handler (ctx s1)) cap e"
    by (auto simp: fired_def)
  from 1(1) have "phase (ctx s1) = phase (ctx s)" "handler (ctx s1) = handler (ctx s)"
    by (simp_all add: frame_def)
  with 1 2 have "trace s2 = trace s @ (n1 @ n2)"
    "\<forall>e\<in>set (n1 @ n2). in_phase (phase (ctx s)) (handler (ctx s)) cap e"
    by auto
  with frame_trans [OF 1(1) 2(1)] show ?thesis unfolding fired_def by blast
qed

lemma fireListeners_fired: "fired cap s (state_after (fireListeners B s cap))"
proof (rule fireListeners_rule [where R = "\<lambda>s r. fired cap s (state_after r)"])
  show "fired cap s (state_after (Inr s))" for s
    by (simp add: state_after_def fired_refl)
  show "fired cap s (state_after r)"
    if "fired cap s (state_after (Inr s1))" and "fired cap s1 (state_after r)" for s s1 r
    using that by (auto simp: state_after_def intro: fired_trans)
  show "fired cap s (state_after (Inl (LISTENERS_MAP_MISSED, s)))" for s
    by (simp add: state_after_def fired_refl)
  show "fired cap s (state_after (invoke B (handler (ctx s)) cap l s))"
    if c: "capture l = cap" and reg: "listeners (internal s) (handler (ctx s)) \<noteq> None" for l s
  proof -
    let ?s' = "state_after (invoke B (handler (ctx s)) cap l s)"
    from invoke_shape [OF reg, of B cap l] obtain e
      where t: "trace ?s' = trace s @ [e]"
        and e: "inv_handler e = handler (ctx s)" "inv_phase e = phase (ctx s)"
          "inv_capture e = capture l"
      by blast
    from e c have "\<forall>x\<in>set [e]. in_phase (phase (ctx s)) (handler (ctx s)) cap x"
      by (simp add: in_phase_def)
    with t invoke_frame [of s B "handler (ctx s)" cap l] show ?thesis
      unfolding fired_def by blast
  qed
qed

text \<open>
  The entries a loop over a list of ancestors adds: one segment for each ancestor, in the
  order of the list, each segment holding calls on that ancestor only.
\<close>

definition segments ::
  "EventPhase \<Rightarrow> bool \<Rightarrow> oref list \<Rightarrow> invocation list list \<Rightarrow> bool"
where
  "segments p cap hs segs \<longleftrightarrow> list_all2 (\<lambda>h seg. \<forall>e\<in>set seg. in_phase p h cap e) hs segs"

lemma segments_empty: "segments p cap hs (replicate (length hs) [])"
  by (induction hs) (simp_all add: segments_def)

lemma segments_Cons:
  "segments p cap (h # hs) (seg # segs) \<longleftrightarrow>
     (\<forall>e\<in>set seg. in_phase p h cap e) \<and> segments p cap hs segs"
  by (simp add: segments_def)

lemma fireListeners_visit:
  assumes "state_after (fireListeners B (visit p h s) cap) = s'"
  obtains new where "trace s' = trace s @ new" and "\<forall>e\<in>set new. in_phase p h cap e"
  using fireListeners_fired [of cap "visit p h s" B] assms
  by (auto simp: fired_def visit_def)

lemma capturing_loop_segments:
  assumes "i < int (length ancestors)"
  shows "\<exists>cs. trace (state_after (capturing_loop B ancestors i s)) = trace s @ concat cs
           \<and> segments CAPTURING_PHASE True (rev (take (nat (i + 1)) ancestors)) cs"
  using assms
proof (induction B ancestors i s rule: capturing_loop.induct)
  case (1 B ancestors i s)
  show ?case
  proof (cases "0 \<le> i")
    case False
    then have "capturing_loop B ancestors i s = Inr s"
      by (subst capturing_loop_unfold) simp
    moreover from False have "take (nat (i + 1)) ancestors = []" by simp
    ultimately have "trace (state_after (capturing_loop B ancestors i s)) = trace s @ concat []
        \<and> segments CAPTURING_PHASE True (rev (take (nat (i + 1)) ancestors)) []"
      by (simp add: state_after_def segments_def)
    then show ?thesis by blast
  next
    case True
    let ?h = "ancestors ! nat i"
    let ?s = "visit CAPTURING_PHASE ?h s"
    let ?r = "fireListeners B ?s True"
    from True "1.prems" have n: "nat i < length ancestors" by simp
    from True have i1: "nat (i + 1) = Suc (nat i)" by simp
    from n have rv: "rev (take (nat (i + 1)) ancestors) = ?h # rev (take (nat i) ancestors)"
      by (simp add: i1 take_Suc_conv_app_nth)
    obtain new where new: "trace (state_after ?r) = trace s @ new"
      "\<forall>e\<in>set new. in_phase CAPTURING_PHASE ?h True e"
      by (rule fireListeners_visit [OF refl])
    show ?thesis
    proof (cases ?r)
      case (Inl err)
      then have eq: "capturing_loop B ancestors i s = ?r"
        using True by (subst capturing_loop_unfold) simp
      let ?cs = "new # replicate (length (rev (take (nat i) ancestors))) []"
      have "segments CAPTURING_PHASE True (rev (take (nat (i + 1)) ancestors)) ?cs"
        unfolding rv segments_Cons using new(2) segments_empty by blast
      moreover have "trace (state_after ?r) = trace s @ concat ?cs"
        using new(1) by simp
      ultimately show ?thesis unfolding eq by blast
    next
      case (Inr s3)
      then have eq: "capturing_loop B ancestors i s = capturing_loop B ancestors (i - 1) s3"
        using True by (subst capturing_loop_unfold) simp
      from "1.IH" [OF True refl refl _ ] Inr "1.prems"
      obtain cs where cs: "trace (state_after (capturing_loop B ancestors (i - 1) s3)) =
          trace s3 @ concat cs"
        "segments CAPTURING_PHASE True (rev (take (nat (i - 1 + 1)) ancestors)) cs"
        by (auto simp: visit_def)
      from new(1) Inr have "trace s3 = trace s @ new" by (simp add: state_after_def)
      with cs(1) have "trace (state_after (capturing_loop B ancestors (i - 1) s3)) =
          trace s @ concat (new # cs)" by simp
      moreover from cs(2) new(2)
      have "segments CAPTURING_PHASE True (rev (take (nat (i + 1)) ancestors)) (new # cs)"
        unfolding rv segments_Cons by simp
      ultimately show ?thesis unfolding eq by blast
    qed
  qed
qed

lemma bubbling_loop_segments:
  "\<exists>bs. trace (state_after (bubbling_loop B ancestors i s)) = trace s @ concat bs
           \<and> segments BUBBLING_PHASE False (drop i ancestors) bs"
proof (induction B ancestors i s rule: bubbling_loop.induct)
  case (1 B ancestors i s)
  show ?case
  proof (cases "\<not> stopped (ctx s) \<and> i < length ancestors")
    case False
    then have "bubbling_loop B ancestors i s = Inr s"
      by (subst bubbling_loop_unfold) auto
    then have "trace (state_after (bubbling_loop B ancestors i s)) =
        trace s @ concat (replicate (length (drop i ancestors)) [])"
      by (simp add: state_after_def)
    with segments_empty show ?thesis by blast
  next
    case True
    let ?h = "ancestors ! i"
    let ?s = "visit BUBBLING_PHASE ?h s"
    let ?r = "fireListeners B ?s False"
    from True have d: "drop i ancestors = ?h # drop (Suc i) ancestors"
      by (simp add: Cons_nth_drop_Suc)
    obtain new where new: "trace (state_after ?r) = trace s @ new"
      "\<forall>e\<in>set new. in_phase BUBBLING_PHASE ?h False e"
      by (rule fireListeners_visit [OF refl])
    show ?thesis
    proof (cases ?r)
      case (Inl err)
      then have eq: "bubbling_loop B ancestors i s = ?r"
        using True by (subst bubbling_loop_unfold) simp
      let ?bs = "new # replicate (length (drop (Suc i) ancestors)) []"
      have "segments BUBBLING_PHASE False (drop i ancestors) ?bs"
        unfolding d segments_Cons using new(2) segments_empty by blast
      moreover have "trace (state_after ?r) = trace s @ concat ?bs"
        using new(1) by simp
      ultimately show ?thesis unfolding eq by blast
    next
      case (Inr s3)
      then have eq: "bubbling_loop B ancestors i s = bubbling_loop B ancestors (Suc i) s3"
        using True by (subst bubbling_loop_unfold) simp
      from "1.IH" [OF True refl refl] Inr
      obtain bs where bs: "trace (state_after (bubbling_loop B ancestors (Suc i) s3)) =
          trace s3 @ concat bs"
        "segments BUBBLING_PHASE False (drop (Suc i) ancestors) bs"
        by (auto simp: visit_def)
      from new(1) Inr have "trace s3 = trace s @ new" by (simp add: state_after_def)
      with bs(1) have "trace (state_after (bubbling_loop B ancestors (Suc i) s3)) =
          trace s @ concat (new # bs)" by simp
      moreover from bs(2) new(2)
      have "segments BUBBLING_PHASE False (drop i ancestors) (new # bs)"
        unfolding d segments_Cons by simp
      ultimately show ?thesis unfolding eq by blast
    qed
  qed
qed

definition shape :: "oref list \<Rightarrow> oref \<Rightarrow> invocation list \<Rightarrow> bool" where
  "shape ancestors node t \<longleftrightarrow>
     (\<exists>cs tc tb bs. t = concat cs @ tc @ tb @ concat bs
        \<and> segments CAPTURING_PHASE True (rev ancestors) cs
        \<and> (\<forall>e\<in>set tc. in_phase AT_TARGET node True e)
        \<and> (\<forall>e\<in>set tb. in_phase AT_TARGET node False e)
        \<and> segments BUBBLING_PHASE False ancestors bs)"

lemma shapeI:
  assumes "t = concat cs @ tc @ tb @ concat bs"
    and "segments CAPTURING_PHASE True (rev ancestors) cs"
    and "\<forall>e\<in>set tc. in_phase AT_TARGET node True e"
    and "\<forall>e\<in>set tb. in_phase AT_TARGET node False e"
    and "segments BUBBLING_PHASE False ancestors bs"
  shows "shape ancestors node t"
  unfolding shape_def using assms by blast

lemma capturing_segments:
  "\<exists>cs. trace (state_after (capturing B ancestors s)) = trace s @ concat cs
          \<and> segments CAPTURING_PHASE True (rev ancestors) cs"
  using capturing_loop_segments [of "int (length ancestors) - 1" ancestors B s]
  by (simp add: capturing_def)

lemma at_target_capture_entries:
  "\<exists>tc. trace (state_after (at_target_capture B node s)) = trace s @ tc
          \<and> (\<forall>e\<in>set tc. in_phase AT_TARGET node True e)"
proof (cases "stopped (ctx s)")
  case True
  then have "trace (state_after (at_target_capture B node s)) = trace s @ []"
    by (simp add: at_target_capture_def state_after_def)
  then show ?thesis by (intro exI [of _ "[]"]) simp
next
  case False
  obtain new where "trace (state_after (fireListeners B (visit AT_TARGET node s) True)) =
      trace s @ new" "\<forall>e\<in>set new. in_phase AT_TARGET node True e"
    by (rule fireListeners_visit [OF refl])
  with False show ?thesis unfolding at_target_capture_def by auto
qed

lemma at_target_capture_ctx:
  assumes "at_target_capture B node s1 = Inr s2" and "\<not> stopped (ctx s2)"
  shows "phase (ctx s2) = AT_TARGET \<and> handler (ctx s2) = node"
proof -
  from assms have ns: "\<not> stopped (ctx s1)"
    by (auto simp: at_target_capture_def split: if_splits)
  with assms(1) have f: "fireListeners B (visit AT_TARGET node s1) True = Inr s2"
    by (simp add: at_target_capture_def)
  from fireListeners_frame [of "visit AT_TARGET node s1" B True] f show ?thesis
    by (simp add: frame_def state_after_def visit_def)
qed

lemma at_target_bubble_entries:
  assumes "\<not> stopped (ctx s) \<longrightarrow> phase (ctx s) = AT_TARGET \<and> handler (ctx s) = node"
  shows "\<exists>tb. trace (state_after (at_target_bubble B s)) = trace s @ tb
          \<and> (\<forall>e\<in>set tb. in_phase AT_TARGET node False e)"
proof (cases "stopped (ctx s)")
  case True
  then have "trace (state_after (at_target_bubble B s)) = trace s @ []"
    by (simp add: at_target_bubble_def state_after_def)
  then show ?thesis by (intro exI [of _ "[]"]) simp
next
  case False
  with assms fireListeners_fired [of False s B] show ?thesis
    by (auto simp: at_target_bubble_def fired_def)
qed

lemma bubbling_segments:
  "\<exists>bs. trace (state_after (bubbling B ancestors s)) = trace s @ concat bs
          \<and> segments BUBBLING_PHASE False ancestors bs"
proof (cases "stopped (ctx s)")
  case True
  then have "trace (state_after (bubbling B ancestors s)) =
      trace s @ concat (replicate (length ancestors) [])"
    by (simp add: bubbling_def state_after_def)
  with segments_empty show ?thesis by blast
next
  case False
  with bubbling_loop_segments [of B ancestors 0 s] show ?thesis
    by (simp add: bubbling_def)
qed

lemma state_after_then_do:
  "state_after (then_do r f) =
     (case r of Inl x \<Rightarrow> state_after r | Inr s \<Rightarrow> state_after (f s))"
  by (simp add: then_do_def state_after_def split: sum.splits)

lemma traversal_shape:
  assumes "trace s = []"
  shows "shape ancestors node (trace (state_after (traversal B ancestors node s)))"
proof -
  let ?none = "replicate (length ancestors) ([] :: invocation list)"
  have none: "segments BUBBLING_PHASE False ancestors ?none" by (rule segments_empty)
  obtain cs where cs: "trace (state_after (capturing B ancestors s)) = concat cs"
    "segments CAPTURING_PHASE True (rev ancestors) cs"
    using capturing_segments [of B ancestors s] assms by auto
  show ?thesis
  proof (cases "capturing B ancestors s")
    case (Inl x)
    then have "state_after (traversal B ancestors node s) = state_after (capturing B ancestors s)"
      by (simp add: traversal_def then_do_def)
    with cs have "trace (state_after (traversal B ancestors node s)) =
        concat cs @ [] @ [] @ concat ?none" by simp
    then show ?thesis using cs(2) _ _ none by (rule shapeI) simp_all
  next
    case (Inr s1)
    with cs have t1: "trace s1 = concat cs" by (simp add: state_after_def)
    obtain tc where tc: "trace (state_after (at_target_capture B node s1)) = trace s1 @ tc"
      "\<forall>e\<in>set tc. in_phase AT_TARGET node True e"
      using at_target_capture_entries by blast
    show ?thesis
    proof (cases "at_target_capture B node s1")
      case (Inl x)
      with Inr have "state_after (traversal B ancestors node s) =
          state_after (at_target_capture B node s1)"
        by (simp add: traversal_def then_do_def)
      with tc t1 have "trace (state_after (traversal B ancestors node s)) =
          concat cs @ tc @ [] @ concat ?none" by simp
      then show ?thesis using cs(2) tc(2) _ none by (rule shapeI) simp
    next
      case s2: (Inr s2)
      with tc t1 have t2: "trace s2 = concat cs @ tc" by (simp add: state_after_def)
      have "\<not> stopped (ctx s2) \<longrightarrow> phase (ctx s2) = AT_TARGET \<and> handler (ctx s2) = node"
        using at_target_capture_ctx [OF s2] by blast
      from at_target_bubble_entries [OF this, of B]
      obtain tb where tb: "trace (state_after (at_target_bubble B s2)) = trace s2 @ tb"
        "\<forall>e\<in>set tb. in_phase AT_TARGET node False e"
        by blast
      show ?thesis
      proof (cases "at_target_bubble B s2")
        case (Inl x)
        with Inr s2 have "state_after (traversal B ancestors node s) =
            state_after (at_target_bubble B s2)"
          by (simp add: traversal_def then_do_def)
        with tb t2 have "trace (state_after (traversal B ancestors node s)) =
            concat cs @ tc @ tb @ concat ?none" by simp
        then show ?thesis using cs(2) tc(2) tb(2) none by (rule shapeI)
      next
        case s3: (Inr s3)
        with tb t2 have t3: "trace s3 = concat cs @ tc @ tb" by (simp add: state_after_def)
        obtain bs where bs: "trace (state_after (bubbling B ancestors s3)) = trace s3 @ concat bs"
          "segments BUBBLING_PHASE False ancestors bs"
          using bubbling_segments by blast
        have "trace (state_after (traversal B ancestors node s)) =
            trace (state_after (bubbling B ancestors s3))"
          using Inr s2 s3
          by (cases "bubbling B ancestors s3")
             (simp_all add: traversal_def then_do_def state_after_def unset_phase_def)
        with bs t3 have "trace (state_after (traversal B ancestors node s)) =
            concat cs @ tc @ tb @ concat bs" by simp
        then show ?thesis using cs(2) tc(2) tb(2) bs(2) by (rule shapeI)
      qed
    qed
  qed
qed

lemma traversal_dom:
  "dom (listeners (internal (state_after (traversal B ancestors node s)))) =
     dom (listeners (internal s))"
  by (rule traversal_internal_rule
        [where Q = "\<lambda>w w'. dom (listeners w') = dom (listeners w)"])
     (simp_all add: unlisten_dom)

lemma traversal_handler:
  assumes "handler (ctx s) \<in> set (node # ancestors)"
  shows "handler (ctx (state_after (traversal B ancestors node s))) \<in> set (node # ancestors)"
proof -
  define R where "R = (\<lambda>(s :: dispatch_state) (r :: dispatch_state result).
    handler (ctx s) \<in> set (node # ancestors) \<longrightarrow>
    handler (ctx (state_after r)) \<in> set (node # ancestors))"
  have "R s (traversal B ancestors node s)"
  proof (rule traversal_step_rule [where R = R])
    show "R s (invoke B (handler (ctx s)) cap l s)" for l s cap
    proof -
      have "handler (ctx (state_after (invoke B (handler (ctx s)) cap l s))) = handler (ctx s)"
        using invoke_frame [of s B "handler (ctx s)" cap l] by (simp add: frame_def)
      then show ?thesis unfolding R_def by simp
    qed
  qed (auto simp: R_def state_after_def visit_def unset_phase_def)
  with assms show ?thesis unfolding R_def by blast
qed

lemma segments_phase:
  assumes "segments p cap hs segs" and "e \<in> set (concat segs)"
  shows "inv_phase e = p \<and> inv_capture e = cap \<and> inv_handler e \<in> set hs"
  using assms unfolding segments_def
proof (induction hs segs rule: list_all2_induct)
  case Nil
  then show ?case by simp
next
  case (Cons h hs seg segs)
  then show ?case by (auto simp: in_phase_def)
qed

lemma stopped_entry_is_last:
  assumes "k < length t" and "\<forall>e\<in>set (butlast t). \<not> P e" and "P (t ! k)"
  shows "Suc k = length t"
proof (rule ccontr)
  assume "Suc k \<noteq> length t"
  with assms(1) have "k < length (butlast t)" by simp
  then have "butlast t ! k \<in> set (butlast t)" by (rule nth_mem)
  moreover from \<open>k < length (butlast t)\<close> have "butlast t ! k = t ! k"
    by (simp add: nth_butlast)
  ultimately show False using assms(2,3) by auto
qed

lemma log_butlast:
  assumes "log_result r"
  shows "\<forall>e\<in>set (butlast (trace (state_after r))). \<not> inv_stopped e \<and> inv_error e = None"
proof (cases r)
  case (Inl x)
  with assms show ?thesis
    by (cases x) (auto simp: log_result_def log_ok_err_def state_after_def)
next
  case (Inr s)
  with assms show ?thesis
    by (auto simp: log_result_def log_ok_def state_after_def dest: in_set_butlastD)
qed

lemma log_stopped:
  assumes "log_result r"
  shows "stopped (ctx (state_after r)) \<longleftrightarrow>
    trace (state_after r) \<noteq> [] \<and> inv_stopped (last (trace (state_after r)))"
proof (cases r)
  case (Inl x)
  with assms show ?thesis
    by (cases x) (auto simp: log_result_def log_ok_err_def state_after_def)
next
  case (Inr s)
  with assms show ?thesis
    by (auto simp: log_result_def log_ok_def state_after_def)
qed

section \<open>Properties of dispatch\<close>

text \<open>
  C2. When a listener called in the capturing phase leaves the dispatch stopped (it called
  \<^verbatim>\<open>stopPropagation()\<close> and was not passive), its call is the last call of the
  dispatch: no listener of the target, no bubbling listener and no capturing listener of
  an ancestor not yet visited is called after it, so every call of the dispatch was made
  in the capturing phase. If \<^verbatim>\<open>dispatch\<close> returns, it returns \<^verbatim>\<open>false\<close>; and it does
  return \<^verbatim>\<open>false\<close> when that listener returned and the target and its ancestors all
  have their listeners maps.
\<close>

theorem stop_while_capturing:
  assumes "s' = state_after_dispatch (dispatch B G w node ty)"
    and "k < length (trace s')"
    and "inv_phase (trace s' ! k) = CAPTURING_PHASE"
    and "inv_stopped (trace s' ! k)"
  shows "Suc k = length (trace s')
     \<and> (\<forall>e\<in>set (trace s'). inv_phase e = CAPTURING_PHASE)
     \<and> (\<forall>b s''. dispatch B G w node ty = Inr (b, s'') \<longrightarrow> \<not> b)
     \<and> (inv_error (trace s' ! k) = None \<longrightarrow> set (node # G node) \<subseteq> dom (listeners w) \<longrightarrow>
          dispatch B G w node ty = Inr (False, s'))"
proof -
  let ?r = "traversal B (G node) node (start w node ty)"
  have s': "s' = state_after ?r"
    using assms(1) by (simp add: dispatch_def state_after_dispatchEvent)
  have log: "log_result ?r" by (rule traversal_log [OF log_ok_start])
  have last: "Suc k = length (trace s')"
    using assms(2) log_butlast [OF log] assms(4) unfolding s' [symmetric]
    by (intro stopped_entry_is_last [where P = inv_stopped]) auto
  then have ne: "trace s' \<noteq> []" by auto
  from last have "k = length (trace s') - 1" by simp
  with ne have lk: "last (trace s') = trace s' ! k" by (simp add: last_conv_nth)
  have stopped: "stopped (ctx s')"
    using log_stopped [OF log] ne lk assms(4) by (simp add: s')
  have phases: "\<forall>e\<in>set (trace s'). inv_phase e = CAPTURING_PHASE"
  proof -
    have "shape (G node) node (trace s')"
      unfolding s' by (rule traversal_shape) (simp add: start_def)
    then obtain cs tc tb bs where t: "trace s' = concat cs @ tc @ tb @ concat bs"
      and cs: "segments CAPTURING_PHASE True (rev (G node)) cs"
      and tc: "\<forall>e\<in>set tc. in_phase AT_TARGET node True e"
      and tb: "\<forall>e\<in>set tb. in_phase AT_TARGET node False e"
      and bs: "segments BUBBLING_PHASE False (G node) bs"
      unfolding shape_def by blast
    have "tc @ tb @ concat bs = []"
    proof (rule ccontr)
      assume n: "tc @ tb @ concat bs \<noteq> []"
      then have "last (trace s') = last (tc @ tb @ concat bs)"
        unfolding t by (metis last_appendR)
      with n have "last (trace s') \<in> set tc \<union> set tb \<union> set (concat bs)"
        by (metis last_in_set set_append Un_assoc)
      then consider "last (trace s') \<in> set tc" | "last (trace s') \<in> set tb"
        | "last (trace s') \<in> set (concat bs)" by blast
      then have "inv_phase (last (trace s')) \<noteq> CAPTURING_PHASE"
      proof cases
        case 1
        with tc show ?thesis by (simp add: in_phase_def)
      next
        case 2
        with tb show ?thesis by (simp add: in_phase_def)
      next
        case 3
        from segments_phase [OF bs 3] show ?thesis by simp
      qed
      with lk assms(3) show False by simp
    qed
    with t have "trace s' = concat cs" by simp
    with segments_phase [OF cs] show ?thesis by auto
  qed
  have ret: "\<not> b" if "dispatch B G w node ty = Inr (b, s'')" for b s''
  proof -
    from that have "?r = Inr s''" "b = (\<not> stopped (ctx s''))"
      by (auto simp: dispatch_def dispatchEvent_traversal split: sum.splits)
    with s' stopped show ?thesis by (simp add: state_after_def)
  qed
  have tot: "dispatch B G w node ty = Inr (False, s')"
    if ok: "inv_error (trace s' ! k) = None" and reg: "set (node # G node) \<subseteq> dom (listeners w)"
  proof (cases ?r)
    case (Inr s'')
    with s' stopped show ?thesis
      by (simp add: dispatch_def dispatchEvent_traversal state_after_def)
  next
    case (Inl x)
    then obtain err where x: "?r = Inl (err, s')"
      using s' by (cases x) (auto simp: state_after_def)
    with log have e: "log_ok_err err s'" by (simp add: log_result_def)
    have "handler (ctx s') \<in> set (node # G node)"
      unfolding s' by (rule traversal_handler) (simp add: start_def new_EventBinder_def)
    moreover have "dom (listeners (internal s')) = dom (listeners w)"
      unfolding s' by (simp add: traversal_dom) (simp add: start_def)
    ultimately have "listeners (internal s') (handler (ctx s')) \<noteq> None"
      using reg by (auto simp: dom_def)
    with e ne lk ok show ?thesis by (auto simp: log_ok_err_def)
  qed
  from last phases ret tot show ?thesis by blast
qed

text \<open>
  An example for the theorems below: object 2 is the root, object 1 its child and object 0
  the child of 1. Each has a capturing and a bubbling listener for the type \<open>x\<close>.
\<close>

definition family :: "oref \<Rightarrow> oref list" where
  "family ob = (if ob = 0 then [1, 2] else if ob = 1 then [2] else [])"

definition family_registry :: internal_state where
  "family_registry = run_ops (\<lambda>c. [])
     [OpConstruct 2, OpConstruct 1, OpConstruct 0,
      OpListen 2 ''x'' 20 True False False, OpListen 2 ''x'' 21 False False False,
      OpListen 1 ''x'' 30 True False False, OpListen 1 ''x'' 31 False False False,
      OpListen 0 ''x'' 10 True False False, OpListen 0 ''x'' 11 False False False]"

lemma family_registry_listeners:
  "listeners family_registry 0 = Some [''x'' \<mapsto> Suc (Suc 0)]"
  "listeners family_registry (Suc 0) = Some [''x'' \<mapsto> Suc 0]"
  "listeners family_registry 2 = Some [''x'' \<mapsto> 0]"
  by (simp_all add: family_registry_def run_simps)

lemma family_registry_arrays:
  "arrays family_registry 0 =
     [\<lparr>callback = 20, capture = True, passive = False, removed = False, once = False\<rparr>,
      \<lparr>callback = 21, capture = False, passive = False, removed = False, once = False\<rparr>]"
  "arrays family_registry (Suc 0) =
     [\<lparr>callback = 30, capture = True, passive = False, removed = False, once = False\<rparr>,
      \<lparr>callback = 31, capture = False, passive = False, removed = False, once = False\<rparr>]"
  "arrays family_registry (Suc (Suc 0)) =
     [\<lparr>callback = 10, capture = True, passive = False, removed = False, once = False\<rparr>,
      \<lparr>callback = 11, capture = False, passive = False, removed = False, once = False\<rparr>]"
  by (simp_all add: family_registry_def run_simps)

lemmas dispatch_simps =
  dispatch_def dispatchEvent_def start_def new_EventBinder_def new_Event_def
  capturing_loop.simps bubbling_loop.simps fireListeners_def getListenersMaps_def
  fire_loop.simps invoke_def call_listener_def align_def record_call_def unlisten_once_def
  unlisten_def unlisten_loop.simps same_key_def
  preventDefault_def stopPropagation_def state_after_def state_after_dispatch_def Let_def

lemmas family_simps = family_def family_registry_listeners family_registry_arrays

subsection \<open>A dispatch that nothing disturbs\<close>

text \<open>
  The listeners of an object for a type and a capture flag, in registration order.
\<close>

definition matching :: "internal_state \<Rightarrow> oref \<Rightarrow> string \<Rightarrow> bool \<Rightarrow> EventListener list" where
  "matching w h ty cap =
     (case listeners w h of
        None \<Rightarrow> []
      | Some m \<Rightarrow>
          (case m ty of
             None \<Rightarrow> []
           | Some a \<Rightarrow> filter (\<lambda>l. capture l = cap \<and> \<not> removed l) (arrays w a)))"

text \<open>
  A listener that is not one-time and whose callback only calls \<^verbatim>\<open>preventDefault\<close>.
\<close>

definition quiet :: "behaviour \<Rightarrow> EventListener \<Rightarrow> bool" where
  "quiet B l \<longleftrightarrow> \<not> once l \<and> (\<forall>a\<in>set (B (callback l)). a = PreventDefault)"

definition call_of :: "invocation \<Rightarrow> EventPhase \<times> oref \<times> cref" where
  "call_of e = (inv_phase e, inv_handler e, inv_callback e)"

definition calm :: "dispatch_state \<Rightarrow> dispatch_state \<Rightarrow> bool" where
  "calm s s' \<longleftrightarrow>
     internal s' = internal s \<and> phase (ctx s') = phase (ctx s) \<and>
     handler (ctx s') = handler (ctx s) \<and> target (ctx s') = target (ctx s) \<and>
     stopped (ctx s') = stopped (ctx s) \<and> etype (event s') = etype (event s)"

lemma run_callback_quiet:
  assumes "\<forall>a\<in>set as. a = PreventDefault"
  shows "\<exists>s'. run_callback c as s = Inr s' \<and> internal s' = internal s \<and> ctx s' = ctx s
           \<and> trace s' = trace s \<and> etype (event s') = etype (event s)"
  using assms
proof (induction as arbitrary: s)
  case Nil
  show ?case by simp
next
  case (Cons a as)
  then have a: "a = PreventDefault" and as: "\<forall>a\<in>set as. a = PreventDefault" by simp_all
  from Cons.IH [OF as, of "preventDefault s"] a show ?case
    by (auto simp: preventDefault_def split: if_splits)
qed

lemma invoke_quiet:
  assumes "quiet B l"
  shows "\<exists>s'. invoke B ob cap l s = Inr s' \<and> calm s s'
           \<and> map call_of (trace s') =
               map call_of (trace s) @ [(phase (ctx s), handler (ctx s), callback l)]"
proof -
  from assms have q: "\<forall>a\<in>set (B (callback l)). a = PreventDefault" and o: "\<not> once l"
    by (simp_all add: quiet_def)
  from run_callback_quiet [OF q, of "callback l" "align l s"]
  obtain s1 where r: "run_callback (callback l) (B (callback l)) (align l s) = Inr s1"
    and s1: "internal s1 = internal (align l s)" "ctx s1 = ctx (align l s)"
      "trace s1 = trace (align l s)" "etype (event s1) = etype (event (align l s))"
    by blast
  have "invoke B ob cap l s = Inr (record_call l None s1)"
    using r o by (simp add: invoke_def call_listener_def unlisten_once_def)
  moreover have "calm s (record_call l None s1)"
    using s1 by (auto simp: calm_def record_call_def align_def)
  moreover have "map call_of (trace (record_call l None s1)) =
      map call_of (trace s) @ [(phase (ctx s), handler (ctx s), callback l)]"
    using s1 by (auto simp: record_call_def align_def call_of_def)
  ultimately show ?thesis by blast
qed

lemma calm_refl: "calm s s"
  by (simp add: calm_def)

lemma calm_trans: "calm s s1 \<Longrightarrow> calm s1 s2 \<Longrightarrow> calm s s2"
  by (auto simp: calm_def)

lemma fire_loop_quiet:
  assumes "\<forall>l\<in>set (drop i (arrays (internal s) a)). capture l = cap \<and> \<not> removed l \<longrightarrow> quiet B l"
    and "\<not> stopped (ctx s)"
  shows "\<exists>s'. fire_loop B ob a cap i s = Inr s' \<and> calm s s'
           \<and> map call_of (trace s') = map call_of (trace s) @
               map (\<lambda>l. (phase (ctx s), handler (ctx s), callback l))
                 (filter (\<lambda>l. capture l = cap \<and> \<not> removed l) (drop i (arrays (internal s) a)))"
  using assms
proof (induction B ob a cap i s rule: fire_loop.induct)
  case (1 B ob a cap i s)
  let ?ls = "arrays (internal s) a"
  let ?l = "?ls ! i"
  let ?ok = "\<lambda>l. capture l = cap \<and> \<not> removed l"
  show ?case
  proof (cases "i < length ?ls")
    case False
    then have "fire_loop B ob a cap i s = Inr s"
      by (subst fire_loop.simps) simp
    with False show ?thesis by (simp add: calm_refl)
  next
    case True
    then have d: "drop i ?ls = ?l # drop (Suc i) ?ls"
      by (simp add: Cons_nth_drop_Suc)
    show ?thesis
    proof (cases "?ok ?l")
      case False
      then have eq: "fire_loop B ob a cap i s = fire_loop B ob a cap (Suc i) s"
        using True by (subst fire_loop.simps) (auto simp: Let_def)
      have "\<not> (capture ?l = cap \<and> \<not> removed ?l \<and> \<not> stopped (ctx s))" using False by blast
      from "1.IH"(2) [OF True refl this] "1.prems" d
      obtain s' where "fire_loop B ob a cap (Suc i) s = Inr s'" "calm s s'"
        "map call_of (trace s') = map call_of (trace s) @
           map (\<lambda>l. (phase (ctx s), handler (ctx s), callback l)) (filter ?ok (drop (Suc i) ?ls))"
        by auto
      with False d show ?thesis unfolding eq by auto
    next
      case ok: True
      with "1.prems" d have q: "quiet B ?l" by simp
      from invoke_quiet [OF q, of ob cap s]
      obtain s1 where i1: "invoke B ob cap ?l s = Inr s1" and c1: "calm s s1"
        and t1: "map call_of (trace s1) =
            map call_of (trace s) @ [(phase (ctx s), handler (ctx s), callback ?l)]"
        by blast
      from ok "1.prems"(2) have fire: "capture ?l = cap \<and> \<not> removed ?l \<and> \<not> stopped (ctx s)"
        by simp
      then have eq: "fire_loop B ob a cap i s = fire_loop B ob a cap (Suc i) s1"
        using True i1 by (subst fire_loop.simps) (simp add: Let_def)
      from c1 have same: "arrays (internal s1) a = ?ls" "\<not> stopped (ctx s1)"
        "phase (ctx s1) = phase (ctx s)" "handler (ctx s1) = handler (ctx s)"
        using "1.prems"(2) by (auto simp: calm_def)
      have "\<forall>l\<in>set (drop (Suc i) (arrays (internal s1) a)).
          capture l = cap \<and> \<not> removed l \<longrightarrow> quiet B l"
        using "1.prems"(1) d same(1) by simp
      from "1.IH"(1) [OF True refl fire i1 this same(2)]
      obtain s' where "fire_loop B ob a cap (Suc i) s1 = Inr s'" "calm s1 s'"
        "map call_of (trace s') = map call_of (trace s1) @
           map (\<lambda>l. (phase (ctx s1), handler (ctx s1), callback l))
             (filter ?ok (drop (Suc i) (arrays (internal s1) a)))"
        by blast
      with t1 same c1 ok d show ?thesis unfolding eq
        by (auto intro: calm_trans)
    qed
  qed
qed


lemma fireListeners_quiet:
  assumes reg: "listeners (internal s) (handler (ctx s)) \<noteq> None"
    and q: "\<forall>l\<in>set (matching (internal s) (handler (ctx s)) (etype (event s)) cap). quiet B l"
    and ns: "\<not> stopped (ctx s)"
  shows "\<exists>s'. fireListeners B s cap = Inr s' \<and> calm s s'
           \<and> map call_of (trace s') = map call_of (trace s) @
               map (\<lambda>l. (phase (ctx s), handler (ctx s), callback l))
                 (matching (internal s) (handler (ctx s)) (etype (event s)) cap)"
proof -
  from reg obtain m where m: "listeners (internal s) (handler (ctx s)) = Some m" by blast
  show ?thesis
  proof (cases "m (etype (event s))")
    case None
    with m have "fireListeners B s cap = Inr s"
      by (simp add: fireListeners_def getListenersMaps_def)
    with m None show ?thesis by (simp add: calm_refl matching_def)
  next
    case (Some a)
    with m have eq: "fireListeners B s cap = fire_loop B (handler (ctx s)) a cap 0 s"
      by (simp add: fireListeners_def getListenersMaps_def)
    from m Some have ma: "matching (internal s) (handler (ctx s)) (etype (event s)) cap =
        filter (\<lambda>l. capture l = cap \<and> \<not> removed l) (drop 0 (arrays (internal s) a))"
      by (simp add: matching_def)
    with q have "\<forall>l\<in>set (drop 0 (arrays (internal s) a)).
        capture l = cap \<and> \<not> removed l \<longrightarrow> quiet B l"
      by simp
    from fire_loop_quiet [OF this ns, of "handler (ctx s)"] show ?thesis
      unfolding eq ma by blast
  qed
qed

definition undisturbed :: "dispatch_state \<Rightarrow> dispatch_state \<Rightarrow> bool" where
  "undisturbed s s' \<longleftrightarrow>
     internal s' = internal s \<and> stopped (ctx s') = stopped (ctx s) \<and>
     etype (event s') = etype (event s)"

definition quiet_chain :: "behaviour \<Rightarrow> internal_state \<Rightarrow> string \<Rightarrow> oref list \<Rightarrow> bool" where
  "quiet_chain B w ty hs \<longleftrightarrow>
     (\<forall>h\<in>set hs. listeners w h \<noteq> None \<and> (\<forall>cap. \<forall>l\<in>set (matching w h ty cap). quiet B l))"

definition calls :: "internal_state \<Rightarrow> string \<Rightarrow> EventPhase \<Rightarrow> bool \<Rightarrow> oref
    \<Rightarrow> (EventPhase \<times> oref \<times> cref) list" where
  "calls w ty p cap h = map (\<lambda>l. (p, h, callback l)) (matching w h ty cap)"

lemma fireListeners_visit_quiet:
  assumes "quiet_chain B (internal s) (etype (event s)) hs" and "h \<in> set hs"
    and "\<not> stopped (ctx s)"
  shows "\<exists>s'. fireListeners B (visit p h s) cap = Inr s' \<and> undisturbed s s'
           \<and> map call_of (trace s') =
               map call_of (trace s) @ calls (internal s) (etype (event s)) p cap h"
proof -
  let ?s = "visit p h s"
  from assms have "listeners (internal ?s) (handler (ctx ?s)) \<noteq> None"
    "\<forall>l\<in>set (matching (internal ?s) (handler (ctx ?s)) (etype (event ?s)) cap). quiet B l"
    "\<not> stopped (ctx ?s)"
    by (auto simp: quiet_chain_def visit_def)
  from fireListeners_quiet [OF this] show ?thesis
    by (auto simp: calm_def undisturbed_def visit_def calls_def)
qed

lemma capturing_loop_quiet:
  assumes "quiet_chain B (internal s) (etype (event s)) ancestors"
    and "\<not> stopped (ctx s)" and "i < int (length ancestors)"
  shows "\<exists>s'. capturing_loop B ancestors i s = Inr s' \<and> undisturbed s s'
           \<and> map call_of (trace s') = map call_of (trace s) @
               concat (map (calls (internal s) (etype (event s)) CAPTURING_PHASE True)
                 (rev (take (nat (i + 1)) ancestors)))"
  using assms
proof (induction B ancestors i s rule: capturing_loop.induct)
  case (1 B ancestors i s)
  show ?case
  proof (cases "0 \<le> i")
    case False
    then have "capturing_loop B ancestors i s = Inr s"
      by (subst capturing_loop_unfold) simp
    moreover from False have "nat (i + 1) = 0" by simp
    ultimately show ?thesis by (simp add: undisturbed_def)
  next
    case True
    let ?h = "ancestors ! nat i"
    from True "1.prems"(3) have n: "nat i < length ancestors" by simp
    then have mem: "?h \<in> set ancestors" by simp
    from True have i1: "nat (i + 1) = Suc (nat i)" by simp
    from n have rv: "rev (take (nat (i + 1)) ancestors) = ?h # rev (take (nat i) ancestors)"
      by (simp add: i1 take_Suc_conv_app_nth)
    from fireListeners_visit_quiet [OF "1.prems"(1) mem "1.prems"(2), of CAPTURING_PHASE True]
    obtain s3 where f: "fireListeners B (visit CAPTURING_PHASE ?h s) True = Inr s3"
      and u: "undisturbed s s3"
      and t: "map call_of (trace s3) = map call_of (trace s) @
          calls (internal s) (etype (event s)) CAPTURING_PHASE True ?h"
      by blast
    from f have eq: "capturing_loop B ancestors i s = capturing_loop B ancestors (i - 1) s3"
      using True by (subst capturing_loop_unfold) simp
    from u "1.prems" have p: "quiet_chain B (internal s3) (etype (event s3)) ancestors"
      "\<not> stopped (ctx s3)" "i - 1 < int (length ancestors)"
      by (simp_all add: undisturbed_def)
    from "1.IH" [OF True refl refl _ p] f
    obtain s' where "capturing_loop B ancestors (i - 1) s3 = Inr s'" "undisturbed s3 s'"
      "map call_of (trace s') = map call_of (trace s3) @
         concat (map (calls (internal s3) (etype (event s3)) CAPTURING_PHASE True)
           (rev (take (nat (i - 1 + 1)) ancestors)))"
      by (auto simp: visit_def)
    with t u show ?thesis unfolding eq rv
      by (auto simp: undisturbed_def)
  qed
qed

lemma bubbling_loop_quiet:
  assumes "quiet_chain B (internal s) (etype (event s)) ancestors"
    and "\<not> stopped (ctx s)"
  shows "\<exists>s'. bubbling_loop B ancestors i s = Inr s' \<and> undisturbed s s'
           \<and> map call_of (trace s') = map call_of (trace s) @
               concat (map (calls (internal s) (etype (event s)) BUBBLING_PHASE False)
                 (drop i ancestors))"
  using assms
proof (induction B ancestors i s rule: bubbling_loop.induct)
  case (1 B ancestors i s)
  show ?case
  proof (cases "i < length ancestors")
    case False
    then have "bubbling_loop B ancestors i s = Inr s"
      by (subst bubbling_loop_unfold) simp
    with False show ?thesis by (simp add: undisturbed_def)
  next
    case True
    let ?h = "ancestors ! i"
    from True have mem: "?h \<in> set ancestors" by simp
    from True have d: "drop i ancestors = ?h # drop (Suc i) ancestors"
      by (simp add: Cons_nth_drop_Suc)
    from fireListeners_visit_quiet [OF "1.prems"(1) mem "1.prems"(2), of BUBBLING_PHASE False]
    obtain s3 where f: "fireListeners B (visit BUBBLING_PHASE ?h s) False = Inr s3"
      and u: "undisturbed s s3"
      and t: "map call_of (trace s3) = map call_of (trace s) @
          calls (internal s) (etype (event s)) BUBBLING_PHASE False ?h"
      by blast
    from True "1.prems"(2) have go: "\<not> stopped (ctx s) \<and> i < length ancestors" by simp
    from f have eq: "bubbling_loop B ancestors i s = bubbling_loop B ancestors (Suc i) s3"
      using go by (subst bubbling_loop_unfold) simp
    from u "1.prems" have p: "quiet_chain B (internal s3) (etype (event s3)) ancestors"
      "\<not> stopped (ctx s3)"
      by (simp_all add: undisturbed_def)
    from "1.IH" [OF go refl refl _ p] f
    obtain s' where "bubbling_loop B ancestors (Suc i) s3 = Inr s'" "undisturbed s3 s'"
      "map call_of (trace s') = map call_of (trace s3) @
         concat (map (calls (internal s3) (etype (event s3)) BUBBLING_PHASE False)
           (drop (Suc i) ancestors))"
      by (auto simp: visit_def)
    with t u show ?thesis unfolding eq d
      by (auto simp: undisturbed_def)
  qed
qed

lemma traversal_quiet:
  assumes q: "quiet_chain B (internal s) (etype (event s)) (node # ancestors)"
    and ns: "\<not> stopped (ctx s)"
  shows "\<exists>s'. traversal B ancestors node s = Inr s' \<and> internal s' = internal s
           \<and> \<not> stopped (ctx s')
           \<and> map call_of (trace s') = map call_of (trace s) @
               concat (map (calls (internal s) (etype (event s)) CAPTURING_PHASE True)
                 (rev ancestors)) @
               calls (internal s) (etype (event s)) AT_TARGET True node @
               calls (internal s) (etype (event s)) AT_TARGET False node @
               concat (map (calls (internal s) (etype (event s)) BUBBLING_PHASE False)
                 ancestors)"
proof -
  let ?w = "internal s" and ?ty = "etype (event s)"
  from q have qa: "quiet_chain B ?w ?ty ancestors" by (simp add: quiet_chain_def)
  from capturing_loop_quiet [OF qa ns, of "int (length ancestors) - 1"]
  obtain s1 where 1: "capturing B ancestors s = Inr s1" "undisturbed s s1"
    "map call_of (trace s1) = map call_of (trace s) @
       concat (map (calls ?w ?ty CAPTURING_PHASE True) (rev ancestors))"
    by (auto simp: capturing_def)
  from 1(2) q ns have q1: "quiet_chain B (internal s1) (etype (event s1)) (node # ancestors)"
    "\<not> stopped (ctx s1)"
    by (simp_all add: undisturbed_def)
  from fireListeners_visit_quiet [OF q1(1) _ q1(2), of node AT_TARGET True]
  obtain s2 where 2: "fireListeners B (visit AT_TARGET node s1) True = Inr s2"
    "undisturbed s1 s2"
    "map call_of (trace s2) = map call_of (trace s1) @
       calls (internal s1) (etype (event s1)) AT_TARGET True node"
    by auto
  from 2(1) q1(2) have a2: "at_target_capture B node s1 = Inr s2"
    by (simp add: at_target_capture_def)
  from 2(2) q1 have q2: "quiet_chain B (internal s2) (etype (event s2)) (node # ancestors)"
    "\<not> stopped (ctx s2)"
    by (simp_all add: undisturbed_def)
  from at_target_capture_ctx [OF a2 q2(2)]
  have v2: "visit AT_TARGET node s2 = s2" by (simp add: visit_def)
  from fireListeners_visit_quiet [OF q2(1) _ q2(2), of node AT_TARGET False]
  obtain s3 where 3: "fireListeners B s2 False = Inr s3" "undisturbed s2 s3"
    "map call_of (trace s3) = map call_of (trace s2) @
       calls (internal s2) (etype (event s2)) AT_TARGET False node"
    unfolding v2 by auto
  from 3(1) q2(2) have a3: "at_target_bubble B s2 = Inr s3"
    by (simp add: at_target_bubble_def)
  from 3(2) q2 have q3: "quiet_chain B (internal s3) (etype (event s3)) ancestors"
    "\<not> stopped (ctx s3)"
    by (simp_all add: undisturbed_def quiet_chain_def)
  from bubbling_loop_quiet [OF q3, of 0]
  obtain s4 where 4: "bubbling B ancestors s3 = Inr s4" "undisturbed s3 s4"
    "map call_of (trace s4) = map call_of (trace s3) @
       concat (map (calls (internal s3) (etype (event s3)) BUBBLING_PHASE False) ancestors)"
    using q3(2) by (auto simp: bubbling_def)
  have "traversal B ancestors node s = Inr (unset_phase s4)"
    using 1(1) a2 a3 4(1) by (simp add: traversal_def then_do_def)
  moreover have "internal (unset_phase s4) = ?w" "\<not> stopped (ctx (unset_phase s4))"
    using 1(2) 2(2) 3(2) 4(2) ns by (simp_all add: undisturbed_def unset_phase_def)
  moreover have "map call_of (trace (unset_phase s4)) = map call_of (trace s) @
      concat (map (calls ?w ?ty CAPTURING_PHASE True) (rev ancestors)) @
      calls ?w ?ty AT_TARGET True node @ calls ?w ?ty AT_TARGET False node @
      concat (map (calls ?w ?ty BUBBLING_PHASE False) ancestors)"
    using 1(2,3) 2(2,3) 3(2,3) 4(2,3) by (simp add: undisturbed_def unset_phase_def)
  ultimately show ?thesis by blast
qed

text \<open>
  C1. The calls of a dispatch come in this order. First the calls of the capturing phase:
  one run of calls for each ancestor, the ancestors taken from the root end of the chain
  to the nearest parent, every call on that ancestor and of a listener registered with
  \<^verbatim>\<open>capture = true\<close>. Then the calls on the target in the phase \<^verbatim>\<open>AT_TARGET\<close>: its
  capture listeners, then its bubble listeners. Then the calls of the bubbling phase: one
  run for each ancestor from the nearest parent to the root, every call of a listener
  registered with \<^verbatim>\<open>capture = false\<close>. No call follows a call that left the dispatch
  stopped, in whatever phase. When the target and its ancestors have their listeners maps
  and the listeners on them are quiet (not one-time, callbacks that only call
  \<^verbatim>\<open>preventDefault\<close>), the calls are exactly the matching listeners of each object, in
  registration order.
\<close>

theorem dispatch_order:
  "(\<exists>cs tc tb bs.
      trace (state_after_dispatch (dispatch B G w node ty)) = concat cs @ tc @ tb @ concat bs
      \<and> list_all2 (\<lambda>h seg. \<forall>e\<in>set seg.
            inv_phase e = CAPTURING_PHASE \<and> inv_handler e = h \<and> inv_capture e) (rev (G node)) cs
      \<and> (\<forall>e\<in>set tc. inv_phase e = AT_TARGET \<and> inv_handler e = node \<and> inv_capture e)
      \<and> (\<forall>e\<in>set tb. inv_phase e = AT_TARGET \<and> inv_handler e = node \<and> \<not> inv_capture e)
      \<and> list_all2 (\<lambda>h seg. \<forall>e\<in>set seg.
            inv_phase e = BUBBLING_PHASE \<and> inv_handler e = h \<and> \<not> inv_capture e) (G node) bs)
   \<and> (\<forall>e\<in>set (butlast (trace (state_after_dispatch (dispatch B G w node ty)))).
         \<not> inv_stopped e)
   \<and> (quiet_chain B w ty (node # G node) \<longrightarrow>
        map call_of (trace (state_after_dispatch (dispatch B G w node ty))) =
          concat (map (calls w ty CAPTURING_PHASE True) (rev (G node))) @
          calls w ty AT_TARGET True node @ calls w ty AT_TARGET False node @
          concat (map (calls w ty BUBBLING_PHASE False) (G node)))"
proof -
  let ?r = "traversal B (G node) node (start w node ty)"
  let ?s' = "state_after_dispatch (dispatch B G w node ty)"
  have s': "?s' = state_after ?r"
    by (simp add: dispatch_def state_after_dispatchEvent)
  have "shape (G node) node (trace ?s')"
    unfolding s' by (rule traversal_shape) (simp add: start_def)
  then have 1: "\<exists>cs tc tb bs.
      trace ?s' = concat cs @ tc @ tb @ concat bs
      \<and> list_all2 (\<lambda>h seg. \<forall>e\<in>set seg.
            inv_phase e = CAPTURING_PHASE \<and> inv_handler e = h \<and> inv_capture e) (rev (G node)) cs
      \<and> (\<forall>e\<in>set tc. inv_phase e = AT_TARGET \<and> inv_handler e = node \<and> inv_capture e)
      \<and> (\<forall>e\<in>set tb. inv_phase e = AT_TARGET \<and> inv_handler e = node \<and> \<not> inv_capture e)
      \<and> list_all2 (\<lambda>h seg. \<forall>e\<in>set seg.
            inv_phase e = BUBBLING_PHASE \<and> inv_handler e = h \<and> \<not> inv_capture e) (G node) bs"
    unfolding shape_def segments_def in_phase_def by simp
  have 2: "\<forall>e\<in>set (butlast (trace ?s')). \<not> inv_stopped e"
    unfolding s' using log_butlast [OF traversal_log [OF log_ok_start]] by blast
  have 3: "map call_of (trace ?s') =
      concat (map (calls w ty CAPTURING_PHASE True) (rev (G node))) @
      calls w ty AT_TARGET True node @ calls w ty AT_TARGET False node @
      concat (map (calls w ty BUBBLING_PHASE False) (G node))"
    if "quiet_chain B w ty (node # G node)"
  proof -
    from that have "quiet_chain B (internal (start w node ty))
        (etype (event (start w node ty))) (node # G node)"
      "\<not> stopped (ctx (start w node ty))"
      by (simp_all add: start_def new_Event_def new_EventBinder_def)
    from traversal_quiet [OF this] show ?thesis
      unfolding s' by (auto simp: state_after_def start_def new_Event_def)
  qed
  from 1 2 3 show ?thesis by blast
qed

theorem dispatch_order_witness:
  "map call_of (trace (state_after_dispatch (dispatch (\<lambda>c. []) family family_registry 0 ''x''))) =
     [(CAPTURING_PHASE, 2, 20), (CAPTURING_PHASE, 1, 30), (AT_TARGET, 0, 10),
      (AT_TARGET, 0, 11), (BUBBLING_PHASE, 1, 31), (BUBBLING_PHASE, 2, 21)]"
proof -
  have q: "quiet_chain (\<lambda>c. []) family_registry ''x'' (0 # family 0)"
    by (auto simp: quiet_chain_def quiet_def matching_def family_simps)
  have "family 0 = [1, 2]" by (simp add: family_def)
  with dispatch_order [of "\<lambda>c. []" family family_registry 0 "''x''"] q
  show ?thesis
    by (simp add: calls_def matching_def family_registry_listeners family_registry_arrays)
qed

theorem stop_while_capturing_witness:
  "length (trace (state_after_dispatch
      (dispatch (\<lambda>c. if c = 20 then [StopPropagation] else []) family family_registry 0 ''x''))) = 1
   \<and> map call_of (trace (state_after_dispatch
      (dispatch (\<lambda>c. if c = 20 then [StopPropagation] else []) family family_registry 0 ''x''))) =
       [(CAPTURING_PHASE, 2, 20)]
   \<and> dispatch (\<lambda>c. if c = 20 then [StopPropagation] else []) family family_registry 0 ''x'' =
       Inr (False, state_after_dispatch
         (dispatch (\<lambda>c. if c = 20 then [StopPropagation] else []) family family_registry 0 ''x''))"
proof -
  let ?B = "\<lambda>c::nat. if c = 20 then [StopPropagation] else []"
  let ?s = "state_after_dispatch (dispatch ?B family family_registry 0 ''x'')"
  have t: "trace ?s =
      [\<lparr>inv_handler = 2, inv_phase = CAPTURING_PHASE, inv_callback = 20, inv_capture = True,
        inv_passive = False, inv_once = False, inv_stopped = True, inv_error = None\<rparr>]"
    by (simp add: dispatch_simps family_simps)
  have reg: "set (0 # family 0) \<subseteq> dom (listeners family_registry)"
    by (auto simp: family_simps)
  from stop_while_capturing [of ?s ?B family family_registry 0 "''x''" 0] t reg
  have "Suc 0 = length (trace ?s)"
    and "dispatch ?B family family_registry 0 ''x'' = Inr (False, ?s)"
    by simp_all
  with t show ?thesis by (simp add: call_of_def)
qed

text \<open>
  C4. What \<^verbatim>\<open>dispatch\<close> returns is the negation of the \<^verbatim>\<open>stopped\<close> flag of the
  context at the end of the traversal. A dispatch returns \<^verbatim>\<open>true\<close> when none of the
  listeners it called could stop it, that is, none was a non-passive listener whose
  callback calls \<^verbatim>\<open>stopPropagation\<close>; and when the callbacks only call
  \<^verbatim>\<open>preventDefault\<close> and the target and its ancestors have their listeners maps, the
  dispatch does return, with \<^verbatim>\<open>true\<close>.
\<close>

theorem dispatch_returns_not_stopped:
  "(\<forall>b s'. dispatch B G w node ty = Inr (b, s') \<longrightarrow> b = (\<not> stopped (ctx s')))
   \<and> (\<forall>b s'. dispatch B G w node ty = Inr (b, s') \<longrightarrow>
         (\<forall>e\<in>set (trace s'). inv_passive e \<or> StopPropagation \<notin> set (B (inv_callback e))) \<longrightarrow> b)
   \<and> ((\<forall>c. set (B c) \<subseteq> {PreventDefault}) \<longrightarrow> set (node # G node) \<subseteq> dom (listeners w) \<longrightarrow>
         (\<exists>s'. dispatch B G w node ty = Inr (True, s')))"
proof -
  let ?r = "traversal B (G node) node (start w node ty)"
  have 1: "b = (\<not> stopped (ctx s'))" if "dispatch B G w node ty = Inr (b, s')" for b s'
    using that by (auto simp: dispatch_def dispatchEvent_traversal split: sum.splits)
  have 2: b if d: "dispatch B G w node ty = Inr (b, s')"
    and e: "\<forall>e\<in>set (trace s'). inv_passive e \<or> StopPropagation \<notin> set (B (inv_callback e))"
    for b s'
  proof -
    from d have r: "?r = Inr s'"
      by (auto simp: dispatch_def dispatchEvent_traversal split: sum.splits)
    from traversal_stop_origin [of B "start w node ty" "G node" node] r
    have "stop_origin B (start w node ty) s'" by (simp add: state_after_def)
    then have "stopped (ctx s') \<longrightarrow> (\<exists>e\<in>set (trace s'). effective_stop B e)"
      by (auto simp: stop_origin_def start_def new_EventBinder_def)
    with e have "\<not> stopped (ctx s')" by (auto simp: effective_stop_def)
    with 1 [OF d] show ?thesis by simp
  qed
  have 3: "\<exists>s'. dispatch B G w node ty = Inr (True, s')"
    if p: "\<forall>c. set (B c) \<subseteq> {PreventDefault}" and reg: "set (node # G node) \<subseteq> dom (listeners w)"
  proof -
    from p have "raises_nothing B (dom (listeners w))"
      by (auto simp: raises_nothing_def)
    from dispatchEvent_returns [of B w node G ty, OF this reg]
    obtain s' where d: "dispatch B G w node ty = Inr (\<not> stopped (ctx s'), s')"
      by (auto simp: dispatch_def)
    from p have "\<forall>e\<in>set (trace s'). inv_passive e \<or> StopPropagation \<notin> set (B (inv_callback e))"
      by auto
    from 2 [OF d this] d show ?thesis by auto
  qed
  from 1 2 3 show ?thesis by blast
qed

theorem dispatch_returns_not_stopped_witness:
  "(\<exists>s'. dispatch (\<lambda>c. [PreventDefault]) family family_registry 0 ''x'' = Inr (True, s'))
   \<and> prevented (event (state_after_dispatch
        (dispatch (\<lambda>c. [PreventDefault]) family family_registry 0 ''x'')))
   \<and> length (trace (state_after_dispatch
        (dispatch (\<lambda>c. [PreventDefault]) family family_registry 0 ''x''))) = 6"
proof -
  have reg: "set (0 # family 0) \<subseteq> dom (listeners family_registry)"
    by (auto simp: family_simps)
  from dispatch_returns_not_stopped [of "\<lambda>c. [PreventDefault]" family family_registry 0 "''x''"] reg
  have "\<exists>s'. dispatch (\<lambda>c. [PreventDefault]) family family_registry 0 ''x'' = Inr (True, s')"
    by simp
  moreover have "prevented (event (state_after_dispatch
        (dispatch (\<lambda>c. [PreventDefault]) family family_registry 0 ''x'')))"
    by (simp add: dispatch_simps family_simps)
  moreover have "length (trace (state_after_dispatch
        (dispatch (\<lambda>c. [PreventDefault]) family family_registry 0 ''x''))) = 6"
    by (simp add: dispatch_simps family_simps)
  ultimately show ?thesis by blast
qed

text \<open>
  C10. A dispatch in which every listener called is not one-time and has a callback that
  makes no call of \<^verbatim>\<open>unlisten\<close> leaves the registry exactly as it found it, whether it
  returns or throws: the maps of all objects, all arrays with their entries in order, and
  all fields of the entries.
\<close>

theorem dispatch_keeps_registry:
  assumes "s' = state_after_dispatch (dispatch B G w node ty)"
    and "\<forall>e\<in>set (trace s'). \<not> inv_once e \<and> (\<forall>a\<in>set (B (inv_callback e)). \<not> is_unlisten a)"
  shows "internal s' = w"
proof -
  have s': "s' = state_after (traversal B (G node) node (start w node ty))"
    using assms(1) by (simp add: dispatch_def state_after_dispatchEvent)
  from traversal_registry_kept [of B "start w node ty" "G node" node]
  have "(\<forall>e\<in>set (trace s'). leaves_registry B e) \<longrightarrow> internal s' = internal (start w node ty)"
    unfolding s' by (auto simp: registry_kept_def start_def)
  with assms(2) show ?thesis by (simp add: leaves_registry_def start_def)
qed

theorem dispatch_keeps_registry_witness:
  "internal (state_after_dispatch
      (dispatch (\<lambda>c. if c = 11 then [StopPropagation] else [PreventDefault])
         family family_registry 0 ''x'')) = family_registry
   \<and> map inv_callback (trace (state_after_dispatch
      (dispatch (\<lambda>c. if c = 11 then [StopPropagation] else [PreventDefault])
         family family_registry 0 ''x''))) = [20, 30, 10, 11]"
proof -
  let ?B = "\<lambda>c::nat. if c = 11 then [StopPropagation] else [PreventDefault]"
  let ?s = "state_after_dispatch (dispatch ?B family family_registry 0 ''x'')"
  have h: "\<forall>e\<in>set (trace ?s). \<not> inv_once e \<and> (\<forall>a\<in>set (?B (inv_callback e)). \<not> is_unlisten a)"
    by (simp add: dispatch_simps family_simps)
  have t: "map inv_callback (trace ?s) = [20, 30, 10, 11]"
    by (simp add: dispatch_simps family_simps)
  from dispatch_keeps_registry [of ?s ?B family family_registry 0 "''x''"] h
  have "internal ?s = family_registry" by simp
  with t show ?thesis by simp
qed

subsection \<open>Errors of fireListeners itself\<close>

definition thrown_by_call :: "dispatch_state \<Rightarrow> dispatch_state result \<Rightarrow> bool" where
  "thrown_by_call s r =
     (case r of
        Inl (e, s') \<Rightarrow> (\<exists>new. trace s' = trace s @ new \<and> new \<noteq> [] \<and> inv_error (last new) = Some e)
      | Inr s' \<Rightarrow> (\<exists>new. trace s' = trace s @ new))"

lemma fire_loop_thrown_by_call:
  assumes "handler (ctx s) = ob" and "listeners (internal s) ob \<noteq> None"
  shows "thrown_by_call s (fire_loop B ob a cap i s)"
proof (rule fire_loop_rule [where R = thrown_by_call, OF _ _ _ assms])
  show "thrown_by_call s (Inr s)" for s by (simp add: thrown_by_call_def)
  show "thrown_by_call s r" if "thrown_by_call s (Inr s1)" and "thrown_by_call s1 r" for s s1 r
  proof -
    from that(1) obtain n1 where 1: "trace s1 = trace s @ n1"
      by (auto simp: thrown_by_call_def)
    show ?thesis
    proof (cases r)
      case (Inr s2)
      with that(2) 1 show ?thesis by (auto simp: thrown_by_call_def)
    next
      case (Inl x)
      obtain e s2 where x: "x = (e, s2)" by (cases x)
      with that(2) Inl obtain n2 where 2: "trace s2 = trace s1 @ n2" "n2 \<noteq> []"
        "inv_error (last n2) = Some e"
        by (auto simp: thrown_by_call_def)
      with 1 have "trace s2 = trace s @ (n1 @ n2)" "n1 @ n2 \<noteq> []"
        "inv_error (last (n1 @ n2)) = Some e"
        by simp_all
      with Inl x show ?thesis unfolding thrown_by_call_def by (simp del: append_assoc)
    qed
  qed
  show "thrown_by_call s (invoke B ob cap l s)"
    if "listeners (internal s) ob \<noteq> None" for l s
  proof -
    from invoke_shape [OF that, of B cap l] obtain e
      where t: "trace (state_after (invoke B ob cap l s)) = trace s @ [e]"
        and er: "inv_error e =
          (case invoke B ob cap l s of Inl (err, s') \<Rightarrow> Some err | Inr s' \<Rightarrow> None)"
      by blast
    show ?thesis
    proof (cases "invoke B ob cap l s")
      case (Inr s')
      with t show ?thesis by (simp add: thrown_by_call_def state_after_def)
    next
      case (Inl x)
      obtain err s' where x: "x = (err, s')" by (cases x)
      with Inl t er have "trace s' = trace s @ [e]" "[e] \<noteq> []" "inv_error (last [e]) = Some err"
        by (simp_all add: state_after_def)
      with Inl x show ?thesis unfolding thrown_by_call_def by (simp del: last.simps)
    qed
  qed
qed

lemma fireListeners_error:
  "fireListeners B s cap = Inl (LISTENERS_MAP_MISSED, s) \<longleftrightarrow>
     listeners (internal s) (handler (ctx s)) = None"
proof
  assume "listeners (internal s) (handler (ctx s)) = None"
  then show "fireListeners B s cap = Inl (LISTENERS_MAP_MISSED, s)"
    by (simp add: fireListeners_def getListenersMaps_def)
next
  assume f: "fireListeners B s cap = Inl (LISTENERS_MAP_MISSED, s)"
  show "listeners (internal s) (handler (ctx s)) = None"
  proof (rule ccontr)
    assume "listeners (internal s) (handler (ctx s)) \<noteq> None"
    then obtain m where m: "listeners (internal s) (handler (ctx s)) = Some m" by blast
    show False
    proof (cases "m (etype (event s))")
      case None
      with m f show False by (simp add: fireListeners_def getListenersMaps_def)
    next
      case (Some a)
      with m f have "fire_loop B (handler (ctx s)) a cap 0 s = Inl (LISTENERS_MAP_MISSED, s)"
        by (simp add: fireListeners_def getListenersMaps_def)
      with fire_loop_thrown_by_call [of s "handler (ctx s)" B a cap 0] m
      show False by (simp add: thrown_by_call_def)
    qed
  qed
qed

lemma fireListeners_thrown_by_call:
  assumes "listeners (internal s) (handler (ctx s)) \<noteq> None"
  shows "thrown_by_call s (fireListeners B s cap)"
proof -
  from assms obtain m where m: "listeners (internal s) (handler (ctx s)) = Some m" by blast
  show ?thesis
  proof (cases "m (etype (event s))")
    case None
    with m show ?thesis
      by (simp add: fireListeners_def getListenersMaps_def thrown_by_call_def)
  next
    case (Some a)
    with m have "fireListeners B s cap = fire_loop B (handler (ctx s)) a cap 0 s"
      by (simp add: fireListeners_def getListenersMaps_def)
    with fire_loop_thrown_by_call [of s "handler (ctx s)" B a cap 0] assms
    show ?thesis by simp
  qed
qed

text \<open>
  C8. \<^verbatim>\<open>listen\<close> and \<^verbatim>\<open>unlisten\<close> raise an error exactly when the object has no
  listeners map, and the error is \<^verbatim>\<open>LISTENERS_MAP_MISSED\<close>; \<^verbatim>\<open>fireListeners\<close> itself
  fails, before any call, exactly when the handler has no listeners map, and any other
  error that leaves it was thrown by the last listener it called. The other conditions are
  silent: \<^verbatim>\<open>unlisten\<close> for a type without an array, or without a matching entry in the
  array, returns the registry unchanged; \<^verbatim>\<open>fireListeners\<close> for a type without an array
  returns the state unchanged; and a dispatch on objects that have their maps but no
  listener for the type calls nothing, changes nothing and returns \<^verbatim>\<open>true\<close>.
\<close>

theorem only_missing_registry_raises:
  "((\<exists>e. listen w this ty cb cap pas onc = Inl e) \<longleftrightarrow> listeners w this = None)
   \<and> (\<forall>e. listen w this ty cb cap pas onc = Inl e \<longrightarrow> e = LISTENERS_MAP_MISSED)
   \<and> ((\<exists>e. unlisten w this ty cb cap = Inl e) \<longleftrightarrow> listeners w this = None)
   \<and> (\<forall>e. unlisten w this ty cb cap = Inl e \<longrightarrow> e = LISTENERS_MAP_MISSED)
   \<and> (fireListeners B s cap = Inl (LISTENERS_MAP_MISSED, s) \<longleftrightarrow>
        listeners (internal s) (handler (ctx s)) = None)
   \<and> (\<forall>e s'. fireListeners B s cap = Inl (e, s') \<longrightarrow>
          listeners (internal s) (handler (ctx s)) \<noteq> None \<longrightarrow>
          (\<exists>new. trace s' = trace s @ new \<and> new \<noteq> [] \<and> inv_error (last new) = Some e))
   \<and> (\<forall>m. listeners w this = Some m \<longrightarrow> m ty = None \<longrightarrow> unlisten w this ty cb cap = Inr w)
   \<and> (\<forall>m a. listeners w this = Some m \<longrightarrow> m ty = Some a \<longrightarrow> arrays w a \<noteq> [] \<longrightarrow>
          (\<forall>l\<in>set (arrays w a). \<not> (\<not> removed l \<and> callback l = cb \<and> capture l = cap)) \<longrightarrow>
          unlisten w this ty cb cap = Inr w)
   \<and> (\<forall>m. listeners (internal s) (handler (ctx s)) = Some m \<longrightarrow> m (etype (event s)) = None \<longrightarrow>
          fireListeners B s cap = Inr s)
   \<and> (set (node # G node) \<subseteq> dom (listeners w) \<longrightarrow>
        (\<forall>h\<in>set (node # G node). \<forall>c. matching w h ty c = []) \<longrightarrow>
        (\<exists>s'. dispatch B G w node ty = Inr (True, s') \<and> trace s' = [] \<and> internal s' = w))"
proof -
  have 1: "(\<exists>e. listen w this ty cb cap pas onc = Inl e) \<longleftrightarrow> listeners w this = None"
    by (auto simp: listen_error)
  have 2: "\<forall>e. listen w this ty cb cap pas onc = Inl e \<longrightarrow> e = LISTENERS_MAP_MISSED"
    by (simp add: listen_error)
  have 3: "(\<exists>e. unlisten w this ty cb cap = Inl e) \<longleftrightarrow> listeners w this = None"
    by (auto simp: unlisten_error)
  have 4: "\<forall>e. unlisten w this ty cb cap = Inl e \<longrightarrow> e = LISTENERS_MAP_MISSED"
    by (simp add: unlisten_error)
  note 5 = fireListeners_error [of B s cap]
  have 6: "\<exists>new. trace s' = trace s @ new \<and> new \<noteq> [] \<and> inv_error (last new) = Some e"
    if "fireListeners B s cap = Inl (e, s')" "listeners (internal s) (handler (ctx s)) \<noteq> None"
    for e s'
    using fireListeners_thrown_by_call [OF that(2), of B cap] that(1)
    by (simp add: thrown_by_call_def)
  have 7: "unlisten w this ty cb cap = Inr w" if "listeners w this = Some m" "m ty = None" for m
    using that by (rule unlisten_missing_type)
  have 8: "unlisten w this ty cb cap = Inr w"
    if m: "listeners w this = Some m" "m ty = Some a" and ne: "arrays w a \<noteq> []"
      and no: "\<forall>l\<in>set (arrays w a). \<not> (\<not> removed l \<and> callback l = cb \<and> capture l = cap)"
    for m a
  proof -
    from no have "\<forall>l\<in>set (drop 0 (arrays w a)). \<not> same_key cb cap l"
      by (simp add: same_key_def)
    then have "unlisten_loop (arrays w a) cb cap 0 = arrays w a"
      by (rule unlisten_loop_no_match)
    with unlisten_existing [OF m, of cb cap] ne show ?thesis by simp
  qed
  have 9: "fireListeners B s cap = Inr s"
    if "listeners (internal s) (handler (ctx s)) = Some m" "m (etype (event s)) = None" for m
    using that by (simp add: fireListeners_def getListenersMaps_def)
  have 10: "\<exists>s'. dispatch B G w node ty = Inr (True, s') \<and> trace s' = [] \<and> internal s' = w"
    if reg: "set (node # G node) \<subseteq> dom (listeners w)"
      and none: "\<forall>h\<in>set (node # G node). \<forall>c. matching w h ty c = []"
  proof -
    let ?s = "start w node ty"
    from reg none have "quiet_chain B (internal ?s) (etype (event ?s)) (node # G node)"
      "\<not> stopped (ctx ?s)"
      by (auto simp: quiet_chain_def start_def new_Event_def new_EventBinder_def)
    from traversal_quiet [OF this]
    obtain s' where s': "traversal B (G node) node ?s = Inr s'" "internal s' = internal ?s"
      "\<not> stopped (ctx s')"
      and t: "map call_of (trace s') = map call_of (trace ?s) @
         concat (map (calls (internal ?s) (etype (event ?s)) CAPTURING_PHASE True)
           (rev (G node))) @
         calls (internal ?s) (etype (event ?s)) AT_TARGET True node @
         calls (internal ?s) (etype (event ?s)) AT_TARGET False node @
         concat (map (calls (internal ?s) (etype (event ?s)) BUBBLING_PHASE False) (G node))"
      by blast
    have "calls (internal ?s) (etype (event ?s)) p c h = []" if "h \<in> set (node # G node)"
      for p c h
      using none that by (auto simp: calls_def start_def new_Event_def)
    with t have "map call_of (trace s') = []" by (simp add: start_def)
    then have "trace s' = []" by simp
    with s' show ?thesis
      by (simp add: dispatch_def dispatchEvent_traversal start_def)
  qed
  from 1 2 3 4 5 6 7 8 9 10 show ?thesis by blast
qed

theorem only_missing_registry_raises_witness:
  "listen (run_ops (\<lambda>c. []) [OpConstruct 0, OpDestruct 0]) 0 ''x'' 10 False False False =
     Inl LISTENERS_MAP_MISSED
   \<and> unlisten (run_ops (\<lambda>c. []) [OpConstruct 0, OpDestruct 0, OpConstruct 5]) 5 ''x'' 10 False =
     Inr (run_ops (\<lambda>c. []) [OpConstruct 0, OpDestruct 0, OpConstruct 5])
   \<and> (\<exists>s'. dispatch (\<lambda>c. [Throw]) family family_registry 0 ''y'' = Inr (True, s')
         \<and> trace s' = [] \<and> internal s' = family_registry)"
proof -
  let ?w = "run_ops (\<lambda>c. []) [OpConstruct 0, OpDestruct 0]"
  let ?v = "run_ops (\<lambda>c. []) [OpConstruct 0, OpDestruct 0, OpConstruct 5]"
  have w: "listeners ?w 0 = None" by (simp add: run_simps)
  have v: "listeners ?v 5 = Some Map.empty" by (simp add: run_simps)
  have reg: "set (0 # family 0) \<subseteq> dom (listeners family_registry)"
    by (auto simp: family_simps)
  have none: "\<forall>h\<in>set (0 # family 0). \<forall>c. matching family_registry h ''y'' c = []"
    by (simp add: matching_def family_simps)
  from only_missing_registry_raises [of ?w 0 "''x''" 10 False False False] w
  have a: "listen ?w 0 ''x'' 10 False False False = Inl LISTENERS_MAP_MISSED"
    by (cases "listen ?w 0 ''x'' 10 False False False") auto
  from only_missing_registry_raises [of ?v 5 "''x''" 10 False] v
  have b: "unlisten ?v 5 ''x'' 10 False = Inr ?v" by simp
  from only_missing_registry_raises [where B = "\<lambda>c. [Throw]" and node = 0 and G = family
      and w = family_registry and ty = "''y''"]
    reg none
  have c: "\<exists>s'. dispatch (\<lambda>c. [Throw]) family family_registry 0 ''y'' = Inr (True, s')
      \<and> trace s' = [] \<and> internal s' = family_registry"
    by blast
  from a b c show ?thesis by blast
qed

subsection \<open>Removals stay\<close>

text \<open>The entries an object holds for a type, in registration order.\<close>

definition entries :: "internal_state \<Rightarrow> oref \<Rightarrow> string \<Rightarrow> EventListener list" where
  "entries w h ty = (case bucket w h ty of None \<Rightarrow> [] | Some a \<Rightarrow> arrays w a)"

lemma unlisten_entries:
  assumes wf: "well_formed w" and u: "unlisten w ob ty cb cap = Inr w'"
  shows "entries w' h t =
           (if h = ob \<and> t = ty then filter (\<lambda>l. \<not> same_key cb cap l) (entries w ob ty)
            else entries w h t)"
proof -
  from u obtain m where m: "listeners w ob = Some m"
    by (cases "listeners w ob") (auto simp: unlisten_def)
  show ?thesis
  proof (cases "m ty")
    case None
    from unlisten_missing_type [OF m None] u have "w' = w" by simp
    moreover from m None have "entries w ob ty = []" by (simp add: entries_def bucket_def)
    ultimately show ?thesis by simp
  next
    case (Some a)
    let ?ls = "unlisten_loop (arrays w a) cb cap 0"
    from m Some have ba: "bucket w ob ty = Some a" by (simp add: bucket_def)
    then have ea: "entries w ob ty = arrays w a" by (simp add: entries_def)
    from wf ba have d: "distinct (map key_of (arrays w a))" by (auto simp: well_formed_def)
    have f: "?ls = filter (\<lambda>l. \<not> same_key cb cap l) (arrays w a)"
      using unlisten_loop_filter [of cb cap 0 "arrays w a"] distinct_keys_one_match [OF d]
      by simp
    have other: "a' \<noteq> a" if "bucket w h t = Some a'" "\<not> (h = ob \<and> t = ty)" for a'
      using wf ba that unfolding well_formed_def by blast
    show ?thesis
    proof (cases "?ls = []")
      case True
      with unlisten_existing [OF m Some] u
      have w': "w' = w\<lparr>arrays := (arrays w)(a := []),
                        listeners := (listeners w)(ob \<mapsto> m(ty := None))\<rparr>"
        by simp
      have b: "bucket w' h t = (if h = ob \<and> t = ty then None else bucket w h t)"
        using m by (simp add: w' bucket_def)
      show ?thesis
      proof (cases "h = ob \<and> t = ty")
        case yes: True
        with b True f ea show ?thesis by (simp add: entries_def)
      next
        case no: False
        with b other show ?thesis
          by (auto simp: entries_def w' split: option.splits)
      qed
    next
      case False
      with unlisten_existing [OF m Some] u
      have w': "w' = w\<lparr>arrays := (arrays w)(a := ?ls)\<rparr>"
        by simp
      have b: "bucket w' = bucket w" by (simp add: w' bucket_def fun_eq_iff)
      show ?thesis
      proof (cases "h = ob \<and> t = ty")
        case yes: True
        with b ba f ea show ?thesis by (simp add: entries_def w')
      next
        case no: False
        with b other show ?thesis
          by (auto simp: entries_def w' split: option.splits)
      qed
    qed
  qed
qed

definition shrinks :: "internal_state \<Rightarrow> internal_state \<Rightarrow> bool" where
  "shrinks w w' \<longleftrightarrow>
     (well_formed w \<longrightarrow> well_formed w' \<and> (\<forall>h t. set (entries w' h t) \<subseteq> set (entries w h t)))"

lemma shrinks_refl: "shrinks w w"
  by (simp add: shrinks_def)

lemma shrinks_trans: "shrinks w w1 \<Longrightarrow> shrinks w1 w2 \<Longrightarrow> shrinks w w2"
  unfolding shrinks_def by blast

lemma shrinks_unlisten: "unlisten w ob ty cb cap = Inr w' \<Longrightarrow> shrinks w w'"
  unfolding shrinks_def using well_formed_unlisten unlisten_entries by auto

lemma invoke_shrinks: "shrinks (internal s) (internal (state_after (invoke B ob cap l s)))"
  by (rule invoke_internal_rule [where Q = shrinks])
     (auto intro: shrinks_refl shrinks_trans shrinks_unlisten)

lemma call_listener_shrinks: "shrinks (internal s) (internal (state_after (call_listener B l s)))"
proof -
  let ?r = "run_callback (callback l) (B (callback l)) (align l s)"
  have "shrinks (internal (align l s)) (internal (state_after ?r))"
    by (rule run_callback_internal_rule [where Q = shrinks])
       (auto intro: shrinks_refl shrinks_trans shrinks_unlisten)
  moreover have "internal (align l s) = internal s" by (simp add: align_def)
  moreover have "internal (state_after (call_listener B l s)) = internal (state_after ?r)"
    by (cases ?r) (auto simp: call_listener_def state_after_def record_call_def)
  ultimately show ?thesis by simp
qed

text \<open>
  Once a one-time listener has been called and its call has returned, the object holds no
  live entry with its key, for the rest of the dispatch.
\<close>

definition once_gone :: "dispatch_state \<Rightarrow> bool" where
  "once_gone s \<longleftrightarrow>
     (\<forall>x\<in>set (trace s). inv_error x = None \<longrightarrow> inv_once x \<longrightarrow>
        (\<forall>l\<in>set (entries (internal s) (inv_handler x) (etype (event s))).
           \<not> same_key (inv_callback x) (inv_capture x) l))"

lemma invoke_once_gone:
  assumes wf: "well_formed (internal s)" and g: "once_gone s"
    and reg: "listeners (internal s) (handler (ctx s)) \<noteq> None" and c: "capture l = cap"
  shows "once_gone (state_after (invoke B (handler (ctx s)) cap l s))"
proof -
  let ?ob = "handler (ctx s)"
  let ?r = "invoke B ?ob cap l s"
  let ?s' = "state_after ?r"
  from invoke_shape [OF reg, of B cap l] obtain e
    where t: "trace ?s' = trace s @ [e]"
      and e: "inv_handler e = ?ob" "inv_callback e = callback l" "inv_capture e = capture l"
        "inv_once e = once l"
      and er: "inv_error e = (case ?r of Inl (err, s') \<Rightarrow> Some err | Inr s' \<Rightarrow> None)"
    by blast
  from invoke_frame [of s B ?ob cap l] have ty: "etype (event ?s') = etype (event s)"
    by (simp add: frame_def)
  from invoke_shrinks [of s B ?ob cap l] wf
  have sub: "set (entries (internal ?s') h t) \<subseteq> set (entries (internal s) h t)" for h t
    by (auto simp: shrinks_def)
  have old: "\<forall>x\<in>set (trace s). inv_error x = None \<longrightarrow> inv_once x \<longrightarrow>
      (\<forall>l\<in>set (entries (internal ?s') (inv_handler x) (etype (event ?s'))).
         \<not> same_key (inv_callback x) (inv_capture x) l)"
    using g sub unfolding once_gone_def ty by blast
  have new: "\<forall>l'\<in>set (entries (internal ?s') ?ob (etype (event s))).
      \<not> same_key (callback l) cap l'"
    if ok: "inv_error e = None" and o: "once l"
  proof -
    from ok er obtain s' where r: "?r = Inr s'"
      by (cases ?r) (auto split: prod.splits)
    then obtain s1 where c1: "call_listener B l s = Inr s1"
      and u1: "unlisten_once ?ob l cap s1 = Inr s'"
      by (auto simp: invoke_def split: sum.splits)
    from u1 o obtain w' where u: "unlisten (internal s1) ?ob (etype (event s1)) (callback l) cap = Inr w'"
      and s': "s' = s1\<lparr>internal := w'\<rparr>"
      by (auto simp: unlisten_once_def split: sum.splits)
    from call_listener_shrinks [of s B l] c1 wf have wf1: "well_formed (internal s1)"
      by (simp add: shrinks_def state_after_def)
    from call_listener_frame [of s B l] c1 have ty1: "etype (event s1) = etype (event s)"
      by (simp add: frame_def state_after_def)
    from unlisten_entries [OF wf1 u, of ?ob "etype (event s1)"] r s' ty1
    show ?thesis by (simp add: state_after_def)
  qed
  show ?thesis
    unfolding once_gone_def t ty using old new e c by (auto simp: ty)
qed

lemma traversal_once_gone:
  assumes "well_formed (internal s)" and "once_gone s"
  shows "once_gone (state_after (traversal B ancestors node s))"
proof -
  define R where "R = (\<lambda>(s :: dispatch_state) (r :: dispatch_state result).
    well_formed (internal s) \<and> once_gone s \<longrightarrow>
    well_formed (internal (state_after r)) \<and> once_gone (state_after r))"
  have "R s (traversal B ancestors node s)"
  proof (rule traversal_step_rule [where R = R])
    show "R s (Inr s)" for s by (simp add: R_def state_after_def)
    show "R s r" if "R s (Inr s1)" and "R s1 r" for s s1 r
      using that by (simp add: R_def state_after_def)
    show "R s (Inl (LISTENERS_MAP_MISSED, s))" for s by (simp add: R_def state_after_def)
    show "R s (invoke B (handler (ctx s)) cap l s)"
      if "capture l = cap" "listeners (internal s) (handler (ctx s)) \<noteq> None" for l s cap
      using that invoke_once_gone [of s l cap B] invoke_shrinks [of s B "handler (ctx s)" cap l]
      by (auto simp: R_def shrinks_def)
    show "R s (Inr (visit p h s))" for s p h
      by (simp add: R_def state_after_def visit_def once_gone_def)
    show "R s (Inr (unset_phase s))" for s
      by (simp add: R_def state_after_def unset_phase_def once_gone_def)
  qed
  with assms show ?thesis by (simp add: R_def)
qed

lemma traversal_etype:
  "etype (event (state_after (traversal B ancestors node s))) = etype (event s)"
proof (rule traversal_step_rule
    [where R = "\<lambda>s r. etype (event (state_after r)) = etype (event s)"])
  show "etype (event (state_after (invoke B (handler (ctx s)) cap l s))) = etype (event s)"
    for l s cap
    using invoke_frame [of s B "handler (ctx s)" cap l] by (simp add: frame_def)
qed (simp_all add: state_after_def visit_def unset_phase_def)

lemma shape_phase:
  assumes "shape ancestors node t" and "x \<in> set t"
  shows "inv_phase x \<noteq> NONE"
proof -
  from assms(1) obtain cs tc tb bs where t: "t = concat cs @ tc @ tb @ concat bs"
    and cs: "segments CAPTURING_PHASE True (rev ancestors) cs"
    and tc: "\<forall>e\<in>set tc. in_phase AT_TARGET node True e"
    and tb: "\<forall>e\<in>set tb. in_phase AT_TARGET node False e"
    and bs: "segments BUBBLING_PHASE False ancestors bs"
    unfolding shape_def by blast
  from assms(2) t consider "x \<in> set (concat cs)" | "x \<in> set tc" | "x \<in> set tb"
    | "x \<in> set (concat bs)" by auto
  then show ?thesis
  proof cases
    case 1
    from segments_phase [OF cs 1] show ?thesis by simp
  next
    case 2
    with tc show ?thesis by (simp add: in_phase_def)
  next
    case 3
    with tb show ?thesis by (simp add: in_phase_def)
  next
    case 4
    from segments_phase [OF bs 4] show ?thesis by simp
  qed
qed

lemma not_in_butlast_is_last:
  assumes "x \<in> set t" and "x \<notin> set (butlast t)"
  shows "x = last t"
proof -
  from assms(1) have "t \<noteq> []" by auto
  then have "t = butlast t @ [last t]" by simp
  then have "set t = set (butlast t) \<union> {last t}"
    by (metis list.simps(15) set_append Un_insert_right sup_bot.right_neutral empty_set)
  with assms show ?thesis by auto
qed

text \<open>
  C9. When the callback of a listener throws, \<^verbatim>\<open>dispatch\<close> throws the same error to its
  caller. The throwing call is the last call of the dispatch (no call before it threw, no
  listener is called after it); the context is left in the phase and on the handler of
  that call, so its phase is not \<^verbatim>\<open>NONE\<close>; and what the dispatch had done to the
  registry stays done: every one-time listener called before the throw is no longer among
  the entries of its object.
\<close>

theorem callback_exception_propagates:
  assumes "s' = state_after_dispatch (dispatch B G w node ty)"
    and "e \<in> set (trace s')" and "inv_error e = Some err"
  shows "dispatch B G w node ty = Inl (err, s')
     \<and> e = last (trace s') \<and> (\<forall>x\<in>set (butlast (trace s')). inv_error x = None)
     \<and> phase (ctx s') = inv_phase e \<and> phase (ctx s') \<noteq> NONE
     \<and> handler (ctx s') = inv_handler e
     \<and> (\<forall>c. err = CALLBACK_ERROR c \<longrightarrow> inv_callback e = c)
     \<and> (well_formed w \<longrightarrow>
          (\<forall>x\<in>set (butlast (trace s')). inv_once x \<longrightarrow>
             (\<forall>l\<in>set (entries (internal s') (inv_handler x) ty).
                \<not> (\<not> removed l \<and> callback l = inv_callback x \<and> capture l = inv_capture x))))"
proof -
  let ?s = "start w node ty"
  let ?r = "traversal B (G node) node ?s"
  have s': "s' = state_after ?r"
    using assms(1) by (simp add: dispatch_def state_after_dispatchEvent)
  have log: "log_result ?r" by (rule traversal_log [OF log_ok_start])
  have quiet_before: "\<forall>x\<in>set (butlast (trace s')). inv_error x = None"
    using log_butlast [OF log] by (simp add: s')
  with assms(2,3) have last: "e = last (trace s')"
    by (intro not_in_butlast_is_last) auto
  from assms(2) have ne: "trace s' \<noteq> []" by auto
  obtain err' where r: "?r = Inl (err', s')" and le: "log_ok_err err' s'"
  proof (cases ?r)
    case (Inr s'')
    with log s' have "\<forall>x\<in>set (trace s'). inv_error x = None"
      by (simp add: log_result_def log_ok_def state_after_def)
    with assms(2,3) show ?thesis by auto
  next
    case (Inl x)
    obtain a b where "x = (a, b)" by (cases x)
    with Inl s' log that show ?thesis by (simp add: log_result_def state_after_def)
  qed
  from le assms(3) last ne have err: "err' = err"
    and ph: "inv_phase e = phase (ctx s')" and hd: "inv_handler e = handler (ctx s')"
    and cb: "\<forall>c. err = CALLBACK_ERROR c \<longrightarrow> inv_callback e = c"
    by (auto simp: log_ok_err_def)
  have thrown: "dispatch B G w node ty = Inl (err, s')"
    using r err by (simp add: dispatch_def dispatchEvent_traversal)
  have "shape (G node) node (trace s')"
    unfolding s' by (rule traversal_shape) (simp add: start_def)
  from shape_phase [OF this assms(2)] ph have nn: "phase (ctx s') \<noteq> NONE" by simp
  have gone: "\<forall>x\<in>set (butlast (trace s')). inv_once x \<longrightarrow>
      (\<forall>l\<in>set (entries (internal s') (inv_handler x) ty).
         \<not> (\<not> removed l \<and> callback l = inv_callback x \<and> capture l = inv_capture x))"
    if wf: "well_formed w"
  proof -
    have "once_gone ?s" by (simp add: once_gone_def start_def)
    moreover from wf have "well_formed (internal ?s)" by (simp add: start_def)
    ultimately have og: "once_gone s'"
      unfolding s' by (intro traversal_once_gone)
    have ty: "etype (event s') = ty"
      unfolding s' by (simp add: traversal_etype) (simp add: start_def new_Event_def)
    show ?thesis
    proof (intro ballI impI)
      fix x l
      assume x: "x \<in> set (butlast (trace s'))" and o: "inv_once x"
        and l: "l \<in> set (entries (internal s') (inv_handler x) ty)"
      from x have "x \<in> set (trace s')" by (rule in_set_butlastD)
      moreover from x quiet_before have "inv_error x = None" by blast
      ultimately have "\<not> same_key (inv_callback x) (inv_capture x) l"
        using og o l unfolding once_gone_def ty by blast
      then show "\<not> (\<not> removed l \<and> callback l = inv_callback x \<and> capture l = inv_capture x)"
        by (simp add: same_key_def)
    qed
  qed
  from thrown last quiet_before ph nn hd cb gone show ?thesis by simp
qed

theorem callback_exception_propagates_witness:
  "dispatch (\<lambda>c. if c = 12 then [Throw] else []) (\<lambda>x. [])
      (run_ops (\<lambda>c. []) [OpConstruct 0, OpListen 0 ''x'' 10 True False True,
                           OpListen 0 ''x'' 12 False False False]) 0 ''x'' =
     Inl (CALLBACK_ERROR 12, state_after_dispatch
       (dispatch (\<lambda>c. if c = 12 then [Throw] else []) (\<lambda>x. [])
          (run_ops (\<lambda>c. []) [OpConstruct 0, OpListen 0 ''x'' 10 True False True,
                               OpListen 0 ''x'' 12 False False False]) 0 ''x''))
   \<and> map inv_callback (trace (state_after_dispatch
       (dispatch (\<lambda>c. if c = 12 then [Throw] else []) (\<lambda>x. [])
          (run_ops (\<lambda>c. []) [OpConstruct 0, OpListen 0 ''x'' 10 True False True,
                               OpListen 0 ''x'' 12 False False False]) 0 ''x''))) = [10, 12]
   \<and> phase (ctx (state_after_dispatch
       (dispatch (\<lambda>c. if c = 12 then [Throw] else []) (\<lambda>x. [])
          (run_ops (\<lambda>c. []) [OpConstruct 0, OpListen 0 ''x'' 10 True False True,
                               OpListen 0 ''x'' 12 False False False]) 0 ''x''))) = AT_TARGET
   \<and> map callback (entries (internal (state_after_dispatch
       (dispatch (\<lambda>c. if c = 12 then [Throw] else []) (\<lambda>x. [])
          (run_ops (\<lambda>c. []) [OpConstruct 0, OpListen 0 ''x'' 10 True False True,
                               OpListen 0 ''x'' 12 False False False]) 0 ''x''))) 0 ''x'') = [12]"
proof -
  let ?B = "\<lambda>c::nat. if c = 12 then [Throw] else []"
  let ?w = "run_ops (\<lambda>c. []) [OpConstruct 0, OpListen 0 ''x'' 10 True False True,
                               OpListen 0 ''x'' 12 False False False]"
  let ?s = "state_after_dispatch (dispatch ?B (\<lambda>x. []) ?w 0 ''x'')"
  let ?e = "\<lparr>inv_handler = 0, inv_phase = AT_TARGET, inv_callback = 12, inv_capture = False,
        inv_passive = False, inv_once = False, inv_stopped = False,
        inv_error = Some (CALLBACK_ERROR 12)\<rparr>"
  have t: "trace ?s =
      [\<lparr>inv_handler = 0, inv_phase = AT_TARGET, inv_callback = 10, inv_capture = True,
        inv_passive = False, inv_once = True, inv_stopped = False, inv_error = None\<rparr>, ?e]"
    by (simp add: run_simps)
  have en: "map callback (entries (internal ?s) 0 ''x'') = [12]"
    by (simp add: run_simps entries_def bucket_def)
  from t have "?e \<in> set (trace ?s)" by simp
  from callback_exception_propagates [of ?s ?B "\<lambda>x. []" ?w 0 "''x''" ?e "CALLBACK_ERROR 12",
      OF refl this]
  have "dispatch ?B (\<lambda>x. []) ?w 0 ''x'' = Inl (CALLBACK_ERROR 12, ?s)"
    and "phase (ctx ?s) = AT_TARGET"
    by simp_all
  with t en show ?thesis by simp
qed

subsection \<open>Passive listeners\<close>

text \<open>A callback without its calls of \<^verbatim>\<open>preventDefault\<close> and \<^verbatim>\<open>stopPropagation\<close>.\<close>

definition muted :: "action list \<Rightarrow> action list" where
  "muted as = filter (\<lambda>a. a \<noteq> PreventDefault \<and> a \<noteq> StopPropagation) as"

lemma run_callback_passive:
  "bpassive (ctx s) \<Longrightarrow> run_callback c as s = run_callback c (muted as) s"
proof (induction c as s rule: run_callback.induct)
  case (5 c ob ty cb cap as s)
  show ?case
  proof (cases "unlisten (internal s) ob ty cb cap")
    case (Inl e)
    then show ?thesis by (simp add: muted_def)
  next
    case (Inr w)
    with "5.IH" [OF Inr] "5.prems" show ?thesis by (simp add: muted_def)
  qed
qed (simp_all add: muted_def preventDefault_def stopPropagation_def)

lemma run_callback_passive_flags:
  assumes "bpassive (ctx s)"
  shows "stopped (ctx (state_after (run_callback c as s))) = stopped (ctx s)
       \<and> prevented (event (state_after (run_callback c as s))) = prevented (event s)"
  using assms
proof (induction c as s rule: run_callback.induct)
  case (5 c ob ty cb cap as s)
  then show ?case
    by (cases "unlisten (internal s) ob ty cb cap") (auto simp: state_after_def)
qed (simp_all add: preventDefault_def stopPropagation_def state_after_def)

lemma invoke_same_callback:
  "B (callback l) = B' (callback l) \<Longrightarrow> invoke B ob cap l s = invoke B' ob cap l s"
  by (simp add: invoke_def call_listener_def)

lemma invoke_passive:
  assumes "passive l" and "B' (callback l) = muted (B (callback l))"
  shows "invoke B ob cap l s = invoke B' ob cap l s"
proof -
  from assms(1) have "bpassive (ctx (align l s))" by (simp add: align_def)
  from run_callback_passive [OF this, of "callback l" "B (callback l)"] assms(2)
  show ?thesis by (simp add: invoke_def call_listener_def)
qed

lemma invoke_passive_flags:
  assumes "passive l"
  shows "stopped (ctx (state_after (invoke B ob cap l s))) = stopped (ctx s)
       \<and> prevented (event (state_after (invoke B ob cap l s))) = prevented (event s)"
proof -
  from assms have p: "bpassive (ctx (align l s))" by (simp add: align_def)
  have "stopped (ctx (align l s)) = stopped (ctx s)"
    "prevented (event (align l s)) = prevented (event s)"
    by (simp_all add: align_def)
  with run_callback_passive_flags [OF p, of "callback l" "B (callback l)"] show ?thesis
    by (simp add: invoke_after_call call_listener_ctx)
qed

text \<open>
  The callback \<open>c\<close> is registered as passive wherever it is registered. No step of a
  dispatch adds an entry to an array, so this stays true during a dispatch.
\<close>

definition passive_everywhere :: "cref \<Rightarrow> internal_state \<Rightarrow> bool" where
  "passive_everywhere c w \<longleftrightarrow> (\<forall>a. \<forall>l\<in>set (arrays w a). callback l = c \<longrightarrow> passive l)"

definition no_new_entries :: "internal_state \<Rightarrow> internal_state \<Rightarrow> bool" where
  "no_new_entries w w' \<longleftrightarrow> (\<forall>a. set (arrays w' a) \<subseteq> set (arrays w a))"

lemma unlisten_no_new_entries:
  assumes "unlisten w ob ty cb cap = Inr w'"
  shows "no_new_entries w w'"
proof -
  from assms obtain m where m: "listeners w ob = Some m"
    by (cases "listeners w ob") (auto simp: unlisten_def)
  show ?thesis
  proof (cases "m ty")
    case None
    from unlisten_missing_type [OF m None] assms show ?thesis
      by (simp add: no_new_entries_def)
  next
    case (Some a)
    from unlisten_existing [OF m Some, of cb cap] assms
      unlisten_loop_subset [of "arrays w a" cb cap 0]
    show ?thesis by (auto simp: no_new_entries_def split: if_splits)
  qed
qed

lemma no_new_entries_rule:
  "no_new_entries w w" "no_new_entries w w1 \<Longrightarrow> no_new_entries w1 w2 \<Longrightarrow> no_new_entries w w2"
  unfolding no_new_entries_def by blast+

lemma invoke_no_new_entries:
  "no_new_entries (internal s) (internal (state_after (invoke B ob cap l s)))"
  by (rule invoke_internal_rule [where Q = no_new_entries])
     (auto intro: no_new_entries_rule unlisten_no_new_entries)

lemma passive_everywhere_kept:
  "no_new_entries w w' \<Longrightarrow> passive_everywhere c w \<Longrightarrow> passive_everywhere c w'"
  unfolding no_new_entries_def passive_everywhere_def by blast

definition mute :: "cref \<Rightarrow> behaviour \<Rightarrow> behaviour" where
  "mute c B = B(c := muted (B c))"

lemma invoke_mute:
  assumes "passive_everywhere c (internal s)" and "l \<in> set (arrays (internal s) a)"
  shows "invoke B ob cap l s = invoke (mute c B) ob cap l s"
proof (cases "callback l = c")
  case True
  with assms have "passive l" by (auto simp: passive_everywhere_def)
  moreover from True have "mute c B (callback l) = muted (B (callback l))"
    by (simp add: mute_def)
  ultimately show ?thesis by (rule invoke_passive)
next
  case False
  then have "B (callback l) = mute c B (callback l)" by (simp add: mute_def)
  then show ?thesis by (rule invoke_same_callback)
qed

lemma fire_loop_done:
  "\<not> i < length (arrays (internal s) a) \<Longrightarrow> fire_loop B ob a cap i s = Inr s"
  by (subst fire_loop.simps) simp

lemma fire_loop_skip:
  assumes "i < length (arrays (internal s) a)"
    and "\<not> (capture (arrays (internal s) a ! i) = cap \<and> \<not> removed (arrays (internal s) a ! i)
            \<and> \<not> stopped (ctx s))"
  shows "fire_loop B ob a cap i s = fire_loop B ob a cap (Suc i) s"
  using assms by (subst fire_loop.simps) (auto simp: Let_def)

lemma fire_loop_throw:
  assumes "i < length (arrays (internal s) a)"
    and "capture (arrays (internal s) a ! i) = cap \<and> \<not> removed (arrays (internal s) a ! i)
            \<and> \<not> stopped (ctx s)"
    and "invoke B ob cap (arrays (internal s) a ! i) s = Inl err"
  shows "fire_loop B ob a cap i s = Inl err"
  using assms by (subst fire_loop.simps) (simp add: Let_def)

lemma fire_loop_next:
  assumes "i < length (arrays (internal s) a)"
    and "capture (arrays (internal s) a ! i) = cap \<and> \<not> removed (arrays (internal s) a ! i)
            \<and> \<not> stopped (ctx s)"
    and "invoke B ob cap (arrays (internal s) a ! i) s = Inr s1"
  shows "fire_loop B ob a cap i s = fire_loop B ob a cap (Suc i) s1"
  using assms by (subst fire_loop.simps) (simp add: Let_def)

lemma fire_loop_mute:
  assumes "passive_everywhere c (internal s)"
  shows "fire_loop B ob a cap i s = fire_loop (mute c B) ob a cap i s"
  using assms
proof (induction B ob a cap i s rule: fire_loop.induct)
  case (1 B ob a cap i s)
  let ?l = "arrays (internal s) a ! i"
  show ?case
  proof (cases "i < length (arrays (internal s) a)")
    case False
    then show ?thesis by (simp add: fire_loop_done)
  next
    case True
    then have mem: "?l \<in> set (arrays (internal s) a)" by simp
    show ?thesis
    proof (cases "capture ?l = cap \<and> \<not> removed ?l \<and> \<not> stopped (ctx s)")
      case False
      from "1.IH"(2) [OF True refl False "1.prems"] show ?thesis
        by (simp add: fire_loop_skip [OF True False])
    next
      case fire: True
      note eq = invoke_mute [OF "1.prems" mem, of B ob cap]
      show ?thesis
      proof (cases "invoke B ob cap ?l s")
        case (Inl err)
        with eq have "invoke (mute c B) ob cap ?l s = Inl err" by simp
        with Inl show ?thesis
          by (simp add: fire_loop_throw [OF True fire])
      next
        case (Inr s1)
        with eq have m: "invoke (mute c B) ob cap ?l s = Inr s1" by simp
        from invoke_no_new_entries [of s B ob cap ?l] Inr "1.prems"
        have "passive_everywhere c (internal s1)"
          by (auto simp: state_after_def intro: passive_everywhere_kept)
        from "1.IH"(1) [OF True refl fire Inr this] show ?thesis
          by (simp add: fire_loop_next [OF True fire Inr] fire_loop_next [OF True fire m])
      qed
    qed
  qed
qed

lemma fireListeners_mute:
  assumes "passive_everywhere c (internal s)"
  shows "fireListeners B s cap = fireListeners (mute c B) s cap"
proof (cases "listeners (internal s) (handler (ctx s))")
  case None
  then show ?thesis by (simp add: fireListeners_def getListenersMaps_def)
next
  case (Some m)
  show ?thesis
  proof (cases "m (etype (event s))")
    case None
    with Some show ?thesis by (simp add: fireListeners_def getListenersMaps_def)
  next
    case a: (Some a)
    from fire_loop_mute [OF assms, of B "handler (ctx s)" a cap 0] Some a show ?thesis
      by (simp add: fireListeners_def getListenersMaps_def)
  qed
qed

lemma fireListeners_passive_everywhere:
  assumes "passive_everywhere c (internal s)"
  shows "passive_everywhere c (internal (state_after (fireListeners B s cap)))"
proof -
  have "no_new_entries (internal s) (internal (state_after (fireListeners B s cap)))"
    by (rule fireListeners_rule
        [where R = "\<lambda>s r. no_new_entries (internal s) (internal (state_after r))"])
       (auto simp: state_after_def invoke_no_new_entries [unfolded state_after_def]
          intro: no_new_entries_rule split: sum.splits)
  with assms show ?thesis by (rule passive_everywhere_kept [rotated])
qed

lemma capturing_loop_done:
  "\<not> 0 \<le> i \<Longrightarrow> capturing_loop B ancestors i s = Inr s"
  by (subst capturing_loop_unfold) simp

lemma capturing_loop_throw:
  "0 \<le> i \<Longrightarrow> fireListeners B (visit CAPTURING_PHASE (ancestors ! nat i) s) True = Inl err \<Longrightarrow>
   capturing_loop B ancestors i s = Inl err"
  by (subst capturing_loop_unfold) simp

lemma capturing_loop_next:
  "0 \<le> i \<Longrightarrow> fireListeners B (visit CAPTURING_PHASE (ancestors ! nat i) s) True = Inr s3 \<Longrightarrow>
   capturing_loop B ancestors i s = capturing_loop B ancestors (i - 1) s3"
  by (subst capturing_loop_unfold) simp

lemma bubbling_loop_done:
  "\<not> (\<not> stopped (ctx s) \<and> i < length ancestors) \<Longrightarrow> bubbling_loop B ancestors i s = Inr s"
  by (subst bubbling_loop_unfold) auto

lemma bubbling_loop_throw:
  "\<not> stopped (ctx s) \<and> i < length ancestors \<Longrightarrow>
   fireListeners B (visit BUBBLING_PHASE (ancestors ! i) s) False = Inl err \<Longrightarrow>
   bubbling_loop B ancestors i s = Inl err"
  by (subst bubbling_loop_unfold) simp

lemma bubbling_loop_next:
  "\<not> stopped (ctx s) \<and> i < length ancestors \<Longrightarrow>
   fireListeners B (visit BUBBLING_PHASE (ancestors ! i) s) False = Inr s3 \<Longrightarrow>
   bubbling_loop B ancestors i s = bubbling_loop B ancestors (Suc i) s3"
  by (subst bubbling_loop_unfold) simp

lemma capturing_loop_mute:
  assumes "passive_everywhere c (internal s)"
  shows "capturing_loop B ancestors i s = capturing_loop (mute c B) ancestors i s"
  using assms
proof (induction B ancestors i s rule: capturing_loop.induct)
  case (1 B ancestors i s)
  show ?case
  proof (cases "0 \<le> i")
    case False
    then show ?thesis by (simp add: capturing_loop_done)
  next
    case True
    let ?s = "visit CAPTURING_PHASE (ancestors ! nat i) s"
    from "1.prems" have p: "passive_everywhere c (internal ?s)" by (simp add: visit_def)
    note eq = fireListeners_mute [OF p, of B True]
    show ?thesis
    proof (cases "fireListeners B ?s True")
      case (Inl err)
      with eq have "fireListeners (mute c B) ?s True = Inl err" by simp
      with Inl True show ?thesis by (simp add: capturing_loop_throw)
    next
      case (Inr s3)
      with eq have m: "fireListeners (mute c B) ?s True = Inr s3" by simp
      from fireListeners_passive_everywhere [OF p, of B True] Inr
      have "passive_everywhere c (internal s3)" by (simp add: state_after_def)
      from "1.IH" [OF True refl refl _ this] Inr
      have "capturing_loop B ancestors (i - 1) s3 = capturing_loop (mute c B) ancestors (i - 1) s3"
        by (simp add: visit_def)
      then show ?thesis
        by (simp add: capturing_loop_next [OF True Inr] capturing_loop_next [OF True m])
    qed
  qed
qed

lemma bubbling_loop_mute:
  assumes "passive_everywhere c (internal s)"
  shows "bubbling_loop B ancestors i s = bubbling_loop (mute c B) ancestors i s"
  using assms
proof (induction B ancestors i s rule: bubbling_loop.induct)
  case (1 B ancestors i s)
  show ?case
  proof (cases "\<not> stopped (ctx s) \<and> i < length ancestors")
    case False
    then show ?thesis
      by (simp only: bubbling_loop_done [OF False, of B] bubbling_loop_done [OF False, of "mute c B"])
  next
    case True
    let ?s = "visit BUBBLING_PHASE (ancestors ! i) s"
    from "1.prems" have p: "passive_everywhere c (internal ?s)" by (simp add: visit_def)
    note eq = fireListeners_mute [OF p, of B False]
    show ?thesis
    proof (cases "fireListeners B ?s False")
      case (Inl err)
      with eq have m: "fireListeners (mute c B) ?s False = Inl err" by simp
      show ?thesis
        by (simp only: bubbling_loop_throw [OF True Inl] bubbling_loop_throw [OF True m])
    next
      case (Inr s3)
      with eq have m: "fireListeners (mute c B) ?s False = Inr s3" by simp
      from fireListeners_passive_everywhere [OF p, of B False] Inr
      have "passive_everywhere c (internal s3)" by (simp add: state_after_def)
      from "1.IH" [OF True refl refl _ this] Inr
      have "bubbling_loop B ancestors (Suc i) s3 = bubbling_loop (mute c B) ancestors (Suc i) s3"
        by (simp add: visit_def)
      then show ?thesis
        by (simp only: bubbling_loop_next [OF True Inr] bubbling_loop_next [OF True m])
    qed
  qed
qed

lemma fireListeners_keeps_passive:
  "passive_everywhere c (internal s) \<Longrightarrow> fireListeners B s cap = Inr s1 \<Longrightarrow>
   passive_everywhere c (internal s1)"
  using fireListeners_passive_everywhere [of c s B cap] by (simp add: state_after_def)

lemma capturing_loop_keeps_passive:
  assumes "passive_everywhere c (internal s)"
    and "capturing_loop B ancestors i s = Inr s1"
  shows "passive_everywhere c (internal s1)"
  using assms
proof (induction B ancestors i s rule: capturing_loop.induct)
  case (1 B ancestors i s)
  show ?case
  proof (cases "0 \<le> i")
    case False
    with "1.prems" show ?thesis by (simp add: capturing_loop_done)
  next
    case True
    let ?s = "visit CAPTURING_PHASE (ancestors ! nat i) s"
    from "1.prems"(1) have p: "passive_everywhere c (internal ?s)" by (simp add: visit_def)
    show ?thesis
    proof (cases "fireListeners B ?s True")
      case (Inl err)
      with "1.prems"(2) True show ?thesis by (simp add: capturing_loop_throw)
    next
      case (Inr s3)
      from fireListeners_keeps_passive [OF p Inr]
      have p3: "passive_everywhere c (internal s3)" .
      from "1.prems"(2) have "capturing_loop B ancestors (i - 1) s3 = Inr s1"
        by (simp add: capturing_loop_next [OF True Inr])
      from "1.IH" [OF True refl refl _ p3 this] Inr show ?thesis by (simp add: visit_def)
    qed
  qed
qed

lemma then_do_mute:
  assumes "r = r'" and "\<And>s1. r = Inr s1 \<Longrightarrow> f s1 = f' s1"
  shows "then_do r f = then_do r' f'"
  using assms by (auto simp: then_do_def split: sum.splits)

lemma then_do_keeps:
  assumes "then_do r f = Inr s2"
    and "\<And>s1. r = Inr s1 \<Longrightarrow> P s1"
    and "\<And>s1. P s1 \<Longrightarrow> f s1 = Inr s2 \<Longrightarrow> P s2"
  shows "P s2"
  using assms by (cases r) (auto simp: then_do_def)

lemma traversal_mute:
  assumes "passive_everywhere c (internal s)"
  shows "traversal B ancestors node s = traversal (mute c B) ancestors node s"
proof -
  let ?P = "\<lambda>s. passive_everywhere c (internal s)"
  let ?r1 = "capturing B ancestors s"
  let ?r2 = "then_do ?r1 (at_target_capture B node)"
  let ?r3 = "then_do ?r2 (at_target_bubble B)"
  have k1: "?P s1" if "?r1 = Inr s1" for s1
    using capturing_loop_keeps_passive [OF assms] that by (simp add: capturing_def)
  have k2: "?P s2" if "?r2 = Inr s2" for s2
    using that
  proof (rule then_do_keeps [where P = ?P])
    fix s1 assume "?P s1" and "at_target_capture B node s1 = Inr s2"
    then show "?P s2"
      using fireListeners_keeps_passive [of c "visit AT_TARGET node s1" B True s2]
      by (auto simp: at_target_capture_def visit_def split: if_splits)
  qed (rule k1)
  have k3: "?P s3" if "?r3 = Inr s3" for s3
    using that
  proof (rule then_do_keeps [where P = ?P])
    fix s2 assume "?P s2" and "at_target_bubble B s2 = Inr s3"
    then show "?P s3"
      using fireListeners_keeps_passive [of c s2 B False s3]
      by (auto simp: at_target_bubble_def split: if_splits)
  qed (rule k2)
  have e1: "?r1 = capturing (mute c B) ancestors s"
    using capturing_loop_mute [OF assms] by (simp add: capturing_def)
  have e2: "?r2 = then_do (capturing (mute c B) ancestors s) (at_target_capture (mute c B) node)"
  proof (rule then_do_mute [OF e1])
    fix s1 assume "?r1 = Inr s1"
    then have "?P (visit AT_TARGET node s1)" using k1 by (simp add: visit_def)
    from fireListeners_mute [OF this, of B True]
    show "at_target_capture B node s1 = at_target_capture (mute c B) node s1"
      by (simp add: at_target_capture_def)
  qed
  have e3: "?r3 = then_do (then_do (capturing (mute c B) ancestors s)
      (at_target_capture (mute c B) node)) (at_target_bubble (mute c B))"
  proof (rule then_do_mute [OF e2])
    fix s2 assume "?r2 = Inr s2"
    from fireListeners_mute [OF k2 [OF this], of B False]
    show "at_target_bubble B s2 = at_target_bubble (mute c B) s2"
      by (simp add: at_target_bubble_def)
  qed
  have e4: "then_do ?r3 (bubbling B ancestors) =
      then_do (then_do (then_do (capturing (mute c B) ancestors s)
      (at_target_capture (mute c B) node)) (at_target_bubble (mute c B)))
      (bubbling (mute c B) ancestors)"
  proof (rule then_do_mute [OF e3])
    fix s3 assume "?r3 = Inr s3"
    from bubbling_loop_mute [OF k3 [OF this], of B ancestors 0]
    show "bubbling B ancestors s3 = bubbling (mute c B) ancestors s3"
      by (simp add: bubbling_def)
  qed
  show ?thesis unfolding traversal_def by (rule then_do_mute [OF e4]) simp
qed

lemma dispatch_mute:
  assumes "passive_everywhere c w"
  shows "dispatch B G w node ty = dispatch (mute c B) G w node ty"
proof -
  from assms have "passive_everywhere c (internal (start w node ty))" by (simp add: start_def)
  from traversal_mute [OF this, of B "G node" node] show ?thesis
    by (simp add: dispatch_def dispatchEvent_traversal)
qed

text \<open>
  C5. While a listener registered with \<^verbatim>\<open>passive = true\<close> is the one being called (the
  \<^verbatim>\<open>passive\<close> flag of the context has been aligned to the entry), a call of
  \<^verbatim>\<open>preventDefault\<close> or of \<^verbatim>\<open>stopPropagation\<close> at any point of its callback does
  nothing: the callback runs as it does without that call. The call of the listener leaves
  the \<^verbatim>\<open>prevented\<close> flag of the event and the \<^verbatim>\<open>stopped\<close> flag of the context as they
  were, and it has the outcome of the call of the same callback without these calls. For a
  callback that is registered as passive wherever it is registered, the whole dispatch,
  its result, its final state and its calls, is the one of the callback without these
  calls.
\<close>

theorem passive_listener_calls_are_no_ops:
  assumes "passive l"
  shows "bpassive (ctx (align l s))
    \<and> run_callback c (as @ PreventDefault # bs) (align l s) = run_callback c (as @ bs) (align l s)
    \<and> run_callback c (as @ StopPropagation # bs) (align l s) = run_callback c (as @ bs) (align l s)
    \<and> prevented (event (state_after (invoke B ob cap l s))) = prevented (event s)
    \<and> stopped (ctx (state_after (invoke B ob cap l s))) = stopped (ctx s)
    \<and> invoke B ob cap l s = invoke (mute (callback l) B) ob cap l s
    \<and> (passive_everywhere (callback l) w \<longrightarrow>
         dispatch B G w node ty = dispatch (mute (callback l) B) G w node ty)"
proof -
  from assms have p: "bpassive (ctx (align l s))" by (simp add: align_def)
  have m: "muted (as @ PreventDefault # bs) = muted (as @ bs)"
    "muted (as @ StopPropagation # bs) = muted (as @ bs)"
    by (simp_all add: muted_def)
  have "run_callback c (as @ PreventDefault # bs) (align l s)
      = run_callback c (as @ bs) (align l s)"
    using run_callback_passive [OF p, of c "as @ PreventDefault # bs"]
      run_callback_passive [OF p, of c "as @ bs"] m by simp
  moreover have "run_callback c (as @ StopPropagation # bs) (align l s)
      = run_callback c (as @ bs) (align l s)"
    using run_callback_passive [OF p, of c "as @ StopPropagation # bs"]
      run_callback_passive [OF p, of c "as @ bs"] m by simp
  moreover have "invoke B ob cap l s = invoke (mute (callback l) B) ob cap l s"
    by (rule invoke_passive [OF assms]) (simp add: mute_def)
  ultimately show ?thesis
    using p invoke_passive_flags [OF assms, of B ob cap s] dispatch_mute [of "callback l" w B G node ty]
    by simp
qed

theorem passive_listener_calls_are_no_ops_witness:
  "dispatch (\<lambda>c. [PreventDefault, StopPropagation]) (\<lambda>x. [])
       (run_ops (\<lambda>c. []) [OpConstruct 0, OpListen 0 ''z'' 10 False True False]) 0 ''z''
     = dispatch (mute 10 (\<lambda>c. [PreventDefault, StopPropagation])) (\<lambda>x. [])
       (run_ops (\<lambda>c. []) [OpConstruct 0, OpListen 0 ''z'' 10 False True False]) 0 ''z''
   \<and> (\<exists>s'. dispatch (\<lambda>c. [PreventDefault, StopPropagation]) (\<lambda>x. [])
       (run_ops (\<lambda>c. []) [OpConstruct 0, OpListen 0 ''z'' 10 False True False]) 0 ''z''
         = Inr (True, s')
       \<and> \<not> prevented (event s') \<and> \<not> stopped (ctx s')
       \<and> map inv_callback (trace s') = [10])"
proof -
  let ?l = "\<lparr>callback = 10, capture = False, passive = True, removed = False, once = False\<rparr>"
  let ?w = "run_ops (\<lambda>c. []) [OpConstruct 0, OpListen 0 ''z'' 10 False True False]"
  let ?B = "\<lambda>c :: cref. [PreventDefault, StopPropagation]"
  have "passive_everywhere (callback ?l) ?w"
    by (simp add: passive_everywhere_def run_simps)
  with passive_listener_calls_are_no_ops [of ?l _ _ _ _ ?B _ _ ?w "\<lambda>x. []" 0 "''z''"]
  have "dispatch ?B (\<lambda>x. []) ?w 0 ''z'' = dispatch (mute 10 ?B) (\<lambda>x. []) ?w 0 ''z''"
    by simp
  moreover have "\<exists>s'. dispatch ?B (\<lambda>x. []) ?w 0 ''z'' = Inr (True, s')
       \<and> \<not> prevented (event s') \<and> \<not> stopped (ctx s')
       \<and> map inv_callback (trace s') = [10]"
    by (simp add: run_simps dispatch_simps)
  ultimately show ?thesis by blast
qed

subsection \<open>One-time listeners and the entry that follows them\<close>

text \<open>
  C3. \<^verbatim>\<open>fireListeners\<close> walks the array of the bucket by index while \<^verbatim>\<open>unlisten\<close>
  takes the one-time listener just called out of the same array with \<^verbatim>\<open>splice(i, 1)\<close>.
  The entry that followed moves to index \<^verbatim>\<open>i\<close> and the loop goes on at \<^verbatim>\<open>i + 1\<close>: that
  entry is not called. On an object with the listeners 10 (one-time) and 11 for the type
  \<^verbatim>\<open>x\<close>, both live and both for the bubbling side, a dispatch of \<^verbatim>\<open>x\<close> calls 10 only,
  returns \<^verbatim>\<open>true\<close> and leaves 11 registered and live; the next dispatch calls 11.
\<close>

theorem once_removal_skips_next_listener:
  "arrays (run_ops (\<lambda>c. [])
       [OpConstruct 0, OpListen 0 ''x'' 10 False False True,
        OpListen 0 ''x'' 11 False False False]) 0
     = [\<lparr>callback = 10, capture = False, passive = False, removed = False, once = True\<rparr>,
        \<lparr>callback = 11, capture = False, passive = False, removed = False, once = False\<rparr>]
   \<and> (\<exists>s'. dispatch (\<lambda>c. []) (\<lambda>x. [])
         (run_ops (\<lambda>c. [])
           [OpConstruct 0, OpListen 0 ''x'' 10 False False True,
            OpListen 0 ''x'' 11 False False False]) 0 ''x'' = Inr (True, s')
       \<and> map inv_callback (trace s') = [10]
       \<and> arrays (internal s') 0
           = [\<lparr>callback = 11, capture = False, passive = False, removed = False, once = False\<rparr>]
       \<and> map inv_callback (trace (state_after_dispatch
             (dispatch (\<lambda>c. []) (\<lambda>x. []) (internal s') 0 ''x''))) = [11])"
  by (simp add: run_simps)

end
